theory Spec2Isabelle
  imports Main "HOL-Library.Word" "HOL-Library.Multiset"
begin

section \<open>Data model of \<^verbatim>\<open>file_compressor.cpp\<close>\<close>

text \<open>
  A file is the sequence of its bytes. The program reads and writes bytes as C++
  \<^verbatim>\<open>char\<close>; HOL's \<^typ>\<open>char\<close> is exactly an 8-bit value, so a file is a \<^typ>\<open>string\<close>,
  the marker bytes are the literals \<^term>\<open>CHR ''0''\<close>, \<^term>\<open>CHR ''1''\<close>, \<^term>\<open>CHR ''#''\<close> and the
  magic tag is \<^term>\<open>''HUF1''\<close>. The bit strings the program builds in \<^verbatim>\<open>std::string\<close>
  buffers out of the characters '0' and '1' are strings as well.

  \<^verbatim>\<open>struct Node { char ch; int freq; Node *left, *right; }\<close>: a value of type \<open>node\<close> is a
  \<^verbatim>\<open>Node*\<close>, either \<^verbatim>\<open>nullptr\<close> (\<open>Null\<close>) or a pointer to a struct whose two children are
  pointers again. Every node is allocated once and linked under one parent, so there is no
  aliasing and the pointer structure is a tree. \<^verbatim>\<open>int\<close> is the 32-bit machine integer,
  compared as a signed value.
\<close>

datatype node = Null | Node char "32 word" node node

text \<open>
  The ways in which the C++ leaves the defined behaviour of the language; each is a
  branch of the model.
\<close>

datatype fault =
    EmptyQueue    \<comment> \<open>\<^verbatim>\<open>top()\<close> or \<^verbatim>\<open>pop()\<close> of an empty \<^verbatim>\<open>priority_queue\<close>\<close>
  | NullDeref     \<comment> \<open>member access through a null \<^verbatim>\<open>Node*\<close>\<close>
  | UninitRead    \<comment> \<open>use of a variable that a failed stream read left uninitialised\<close>

subsection \<open>The standard library containers\<close>

text \<open>
  Two library types decide the shape of the tree and are not part of the repository:
  the order in which a range-for visits a \<^verbatim>\<open>std::unordered_map\<close>, and the way
  \<^verbatim>\<open>std::priority_queue\<close> arranges elements of equal weight. Both are parameters.
  \<^verbatim>\<open>std::priority_queue<Node*, vector<Node*>, Compare>\<close> is defined by the standard as a
  vector \<^verbatim>\<open>c\<close> with \<^verbatim>\<open>top() = c.front()\<close>,
  \<^verbatim>\<open>push(x) = c.push_back(x); push_heap(c.begin(), c.end(), comp)\<close> and
  \<^verbatim>\<open>pop() = pop_heap(c.begin(), c.end(), comp); c.pop_back()\<close>.
\<close>

record stdlib =
  iter_order :: "(char \<times> 32 word) list \<Rightarrow> (char \<times> 32 word) list"
  push_heap :: "node list \<Rightarrow> node list"
  pop_heap :: "node list \<Rightarrow> node list"

text \<open>\<^verbatim>\<open>Compare::operator()(a, b) = a->freq > b->freq\<close>, on the signed value of the weight.\<close>

fun key :: "node \<Rightarrow> int" where
  "key Null = 0"
| "key (Node c f l r) = sint f"

definition Compare :: "node \<Rightarrow> node \<Rightarrow> bool" where
  "Compare a b = (key a > key b)"

text \<open>
  The heap property of the standard for a random-access range: no element compares
  before its parent, the parent of position \<open>i\<close> being position \<open>(i - 1) div 2\<close>.
\<close>

definition is_heap :: "node list \<Rightarrow> bool" where
  "is_heap c = (\<forall>i \<in> {1..<length c}. \<not> Compare (c ! ((i - 1) div 2)) (c ! i))"

text \<open>
  The contract of the standard for the three library operations, on vectors of valid
  (non-null) pointers: iteration visits every entry of the map once; \<^verbatim>\<open>push_heap\<close> turns
  a heap followed by one more element into a heap of the same elements; \<^verbatim>\<open>pop_heap\<close>
  moves the front of a heap to the back and leaves a heap before it.
\<close>

definition conforming :: "stdlib \<Rightarrow> bool" where
  "conforming lib =
     ((\<forall>m. mset (iter_order lib m) = mset m) \<and>
      (\<forall>c. c \<noteq> [] \<and> Null \<notin> set c \<and> is_heap (butlast c) \<longrightarrow>
           is_heap (push_heap lib c) \<and> mset (push_heap lib c) = mset c) \<and>
      (\<forall>c. c \<noteq> [] \<and> Null \<notin> set c \<and> is_heap c \<longrightarrow>
           last (pop_heap lib c) = hd c \<and> is_heap (butlast (pop_heap lib c)) \<and>
           mset (pop_heap lib c) = mset c))"

definition pq_push :: "stdlib \<Rightarrow> node \<Rightarrow> node list \<Rightarrow> node list" where
  "pq_push lib x c = push_heap lib (c @ [x])"

definition pq_top :: "node list \<Rightarrow> fault + node" where
  "pq_top c = (case c of [] \<Rightarrow> Inl EmptyQueue | x # _ \<Rightarrow> Inr x)"

definition pq_pop :: "stdlib \<Rightarrow> node list \<Rightarrow> fault + node list" where
  "pq_pop lib c = (if c = [] then Inl EmptyQueue else Inr (butlast (pop_heap lib c)))"

text \<open>
  A reference library: the map is visited in the order of first insertion and both heap
  operations keep the vector sorted by weight (a sorted vector is a heap).
\<close>

definition ref_lib :: stdlib where
  "ref_lib = \<lparr> iter_order = (\<lambda>m. m),
               push_heap = (\<lambda>c. sort_key key c),
               pop_heap = (\<lambda>c. sort_key key (tl c) @ [hd c]) \<rparr>"


section \<open>Compression\<close>

subsection \<open>Frequency table (lines 240-248)\<close>

text \<open>
  \<^verbatim>\<open>unordered_map<char, int> freq; while (in.get(ch)) { freq[ch]++; totalChars++; }\<close>.
  The table is kept as an association list in the order of first insertion; the order
  in which the program later visits it is \<open>iter_order\<close>.
\<close>

fun freq_incr :: "char \<Rightarrow> (char \<times> 32 word) list \<Rightarrow> (char \<times> 32 word) list" where
  "freq_incr ch [] = [(ch, 1)]"
| "freq_incr ch ((k, v) # m) = (if k = ch then (k, v + 1) # m else (k, v) # freq_incr ch m)"

definition count_freq :: "string \<Rightarrow> (char \<times> 32 word) list" where
  "count_freq input = foldl (\<lambda>m ch. freq_incr ch m) [] input"

subsection \<open>Huffman tree (lines 258-284)\<close>

definition push_all :: "stdlib \<Rightarrow> (char \<times> 32 word) list \<Rightarrow> node list" where
  "push_all lib fr = foldl (\<lambda>c (k, v). pq_push lib (Node k v Null Null) c) [] (iter_order lib fr)"

text \<open>The single-character case, \<^verbatim>\<open>if (pq.size() == 1) { ... }\<close>.\<close>

definition single_case :: "stdlib \<Rightarrow> node list \<Rightarrow> fault + node list" where
  "single_case lib c =
     (if length c = 1 then
        (case pq_top c of Inl e \<Rightarrow> Inl e
         | Inr Null \<Rightarrow> Inl NullDeref
         | Inr (Node sc sf sl sr) \<Rightarrow>
             (case pq_pop lib c of Inl e \<Rightarrow> Inl e
              | Inr c1 \<Rightarrow> Inr (pq_push lib (Node (CHR 0x00) sf (Node sc sf sl sr) Null) c1)))
      else Inr c)"

text \<open>
  \<^verbatim>\<open>while (pq.size() > 1) { l = top; pop; r = top; pop; push(merged) }\<close>. With library
  operations that are not known to keep the size of the vector the loop need not end,
  so it is a partial function: \<open>None\<close> is a run that never leaves the loop.
\<close>

partial_function (option) huffman_loop :: "stdlib \<Rightarrow> node list \<Rightarrow> (fault + node list) option" where
  "huffman_loop lib c =
     (if 1 < length c then
        (case pq_top c of Inl e \<Rightarrow> Some (Inl e)
         | Inr l \<Rightarrow>
        (case pq_pop lib c of Inl e \<Rightarrow> Some (Inl e)
         | Inr c1 \<Rightarrow>
        (case pq_top c1 of Inl e \<Rightarrow> Some (Inl e)
         | Inr r \<Rightarrow>
        (case pq_pop lib c1 of Inl e \<Rightarrow> Some (Inl e)
         | Inr c2 \<Rightarrow>
        (case l of Null \<Rightarrow> Some (Inl NullDeref)
         | Node lc lf ll lr \<Rightarrow>
        (case r of Null \<Rightarrow> Some (Inl NullDeref)
         | Node rc rf rl rr \<Rightarrow>
             huffman_loop lib (pq_push lib (Node (CHR 0x00) (lf + rf) l r) c2)))))))
      else Some (Inr c))"

declare huffman_loop.simps [code]

definition build_tree :: "stdlib \<Rightarrow> string \<Rightarrow> (fault + node) option" where
  "build_tree lib input =
     (case single_case lib (push_all lib (count_freq input)) of
        Inl e \<Rightarrow> Some (Inl e)
      | Inr c \<Rightarrow>
          (case huffman_loop lib c of
             None \<Rightarrow> None
           | Some (Inl e) \<Rightarrow> Some (Inl e)
           | Some (Inr c') \<Rightarrow> Some (pq_top c')))"

subsection \<open>Code table (lines 115-122)\<close>

text \<open>
  \<^verbatim>\<open>unordered_map<char, string>\<close> is used through \<^verbatim>\<open>operator[]\<close> only, so it is a map;
  reading an absent key yields the empty string.
\<close>

fun buildCodeMap :: "node \<Rightarrow> string \<Rightarrow> (char \<rightharpoonup> string) \<Rightarrow> (char \<rightharpoonup> string)" where
  "buildCodeMap Null str codeMap = codeMap"
| "buildCodeMap (Node c f l r) str codeMap =
     buildCodeMap r (str @ ''1'')
       (buildCodeMap l (str @ ''0'')
          (if l = Null \<and> r = Null then codeMap(c \<mapsto> (if str = [] then ''0'' else str))
           else codeMap))"

definition lookup :: "(char \<rightharpoonup> string) \<Rightarrow> char \<Rightarrow> string" where
  "lookup codeMap c = (case codeMap c of None \<Rightarrow> [] | Some s \<Rightarrow> s)"

subsection \<open>Tree serialisation (lines 142-152)\<close>

fun writeTree :: "node \<Rightarrow> string" where
  "writeTree Null = []"
| "writeTree (Node c f l r) =
     (if l = Null \<and> r = Null then [CHR ''1'', c]
      else CHR ''0'' # writeTree l @ writeTree r)"

subsection \<open>Bit packing (lines 302-319)\<close>

definition encode_data :: "(char \<rightharpoonup> string) \<Rightarrow> string \<Rightarrow> string" where
  "encode_data codeMap input = concat (map (lookup codeMap) input)"

definition padding_of :: "string \<Rightarrow> nat" where
  "padding_of buffer = 8 - length buffer mod 8"

definition add_padding :: "string \<Rightarrow> string" where
  "add_padding buffer =
     (if padding_of buffer \<noteq> 8 then buffer @ replicate (padding_of buffer) (CHR ''0'')
      else buffer)"

text \<open>
  \<^verbatim>\<open>bitset<8> b(s)\<close> for a string \<open>s\<close> of at most 8 characters: the last character is
  bit 0. Characters other than '0' and '1' make the constructor throw; the buffer holds
  none, and the model reads them as 0. \<^verbatim>\<open>(unsigned char) b.to_ulong()\<close> is the byte with
  these bits.
\<close>

definition bit_at :: "string \<Rightarrow> nat \<Rightarrow> bool" where
  "bit_at r i = (i < length r \<and> r ! i = CHR ''1'')"

definition bits_to_byte :: "string \<Rightarrow> char" where
  "bits_to_byte s =
     (let r = rev (take 8 s)
      in Char (bit_at r 0) (bit_at r 1) (bit_at r 2) (bit_at r 3)
              (bit_at r 4) (bit_at r 5) (bit_at r 6) (bit_at r 7))"

text \<open>\<^verbatim>\<open>for (i = 0; i < buffer.size(); i += 8) out.put(bitset<8>(buffer.substr(i, 8)))\<close>\<close>

fun pack_bytes :: "string \<Rightarrow> string" where
  "pack_bytes [] = []"
| "pack_bytes (b # bs) = bits_to_byte (take 8 (b # bs)) # pack_bytes (drop 8 (b # bs))"

text \<open>
  \<^verbatim>\<open>out.write(reinterpret_cast<const char*>(&totalChars), sizeof(totalChars))\<close>: the object
  representation of a \<^verbatim>\<open>size_t\<close>, taken as 8 bytes in little-endian order.
\<close>

fun le_bytes :: "nat \<Rightarrow> nat \<Rightarrow> string" where
  "le_bytes 0 n = []"
| "le_bytes (Suc k) n = char_of (n mod 256) # le_bytes k (n div 256)"

fun from_le :: "string \<Rightarrow> nat" where
  "from_le [] = 0"
| "from_le (b # bs) = of_char b + 256 * from_le bs"

subsection \<open>\<^verbatim>\<open>FileCompressor::compress\<close> (lines 225-335)\<close>

text \<open>
  The result is the content of the output file. \<open>totalChars\<close> is a \<^verbatim>\<open>size_t\<close> and wraps
  at \<open>2 ^ 64\<close>. The statistics record and the progress display do not reach the file.
  \<open>write_container\<close> is the part of the function from line 285 on, once the root of the
  tree is known.
\<close>

definition write_container :: "node \<Rightarrow> string \<Rightarrow> string" where
  "write_container root input =
     (let totalChars = length input mod 2 ^ 64;
          codeMap = buildCodeMap root [] Map.empty;
          buffer = encode_data codeMap input
      in ''HUF1'' @ writeTree root @ ''#'' @ le_bytes 8 totalChars
           @ [char_of (padding_of buffer)] @ pack_bytes (add_padding buffer))"

definition compress :: "stdlib \<Rightarrow> string \<Rightarrow> (fault + string) option" where
  "compress lib input =
     (case build_tree lib input of
        None \<Rightarrow> None
      | Some (Inl e) \<Rightarrow> Some (Inl e)
      | Some (Inr root) \<Rightarrow> Some (Inr (write_container root input)))"

section \<open>Decompression\<close>

subsection \<open>Tree deserialisation (lines 124-140)\<close>

text \<open>
  \<^verbatim>\<open>char type; in.get(type);\<close> leaves \<open>type\<close> uninitialised when the stream has ended, and
  the comparison that follows reads it. The result is the node and the rest of the
  stream.
\<close>

function readTree :: "string \<Rightarrow> fault + (node \<times> string)" where
  "readTree [] = Inl UninitRead"
| "readTree (type # s) =
     (if type = CHR ''1'' then
        (case s of [] \<Rightarrow> Inl UninitRead
         | ch # s' \<Rightarrow> Inr (Node ch 0 Null Null, s'))
      else if type = CHR ''0'' then
        (case readTree s of Inl e \<Rightarrow> Inl e
         | Inr (l, s1) \<Rightarrow>
             (case readTree s1 of Inl e \<Rightarrow> Inl e
              | Inr (r, s2) \<Rightarrow> Inr (Node (CHR 0x00) 0 l r, s2)))
      else Inr (Null, s))"
  by pat_completeness auto

termination readTree
proof (relation "measure length")
  show "wf (measure length)" by simp
next
  fix type :: char and s :: string
  show "(s, type # s) \<in> measure length" by simp
next
  fix type :: char and s :: string and x l s1
  assume call: "readTree s = Inr x" "(l, s1) = x" and dom: "readTree_dom s"
  have shorter: "readTree s = Inr (t, s') \<Longrightarrow> length s' < length s" for t s'
    using dom
  proof (induction s arbitrary: t s' rule: readTree.pinduct)
    case 1
    then show ?case by (simp add: readTree.psimps)
  next
    case (2 type s)
    show ?case
    proof (cases "type = CHR ''1''")
      case True
      with "2.prems" "2.hyps" show ?thesis
        by (auto simp: readTree.psimps split: list.splits)
    next
      case n1: False
      show ?thesis
      proof (cases "type = CHR ''0''")
        case True
        from "2.prems" "2.hyps" n1 True obtain l s1 r where
          a: "readTree s = Inr (l, s1)" and b: "readTree s1 = Inr (r, s')"
          by (auto simp: readTree.psimps split: sum.splits)
        from "2.IH"(1) [OF n1 True a] have "length s1 < length s" .
        moreover from "2.IH"(2) [OF n1 True a refl b] have "length s' < length s1" .
        ultimately show ?thesis by simp
      next
        case False
        with "2.prems" "2.hyps" n1 show ?thesis
          by (auto simp: readTree.psimps)
      qed
    qed
  qed
  from call have "length s1 < length s"
    using shorter by metis
  then show "(s1, type # s) \<in> measure length" by simp
qed

subsection \<open>Bit unpacking and the decoding walk (lines 371-402)\<close>

text \<open>\<^verbatim>\<open>bitset<8> b(byte); b.to_string()\<close>: the eight bits of the byte, highest first.\<close>

definition bit_char :: "bool \<Rightarrow> char" where
  "bit_char b = (if b then CHR ''1'' else CHR ''0'')"

fun byte_to_bits :: "char \<Rightarrow> string" where
  "byte_to_bits (Char b0 b1 b2 b3 b4 b5 b6 b7) =
     [bit_char b7, bit_char b6, bit_char b5, bit_char b4,
      bit_char b3, bit_char b2, bit_char b1, bit_char b0]"

definition unpack_bits :: "string \<Rightarrow> string" where
  "unpack_bits payload = concat (map byte_to_bits payload)"

text \<open>
  \<^verbatim>\<open>if (padding != 8) bitString = bitString.substr(0, bitString.size() - padding)\<close>.
  \<open>padding\<close> is a \<^verbatim>\<open>char\<close>, taken as signed; it is converted to \<^verbatim>\<open>size_t\<close> for the
  subtraction, which wraps at \<open>2 ^ 64\<close>, and \<^verbatim>\<open>substr\<close> stops at the end of the string.
\<close>

definition schar :: "char \<Rightarrow> int" where
  "schar c = (if of_char c < (128 :: int) then of_char c else of_char c - 256)"

definition remove_padding :: "char \<Rightarrow> string \<Rightarrow> string" where
  "remove_padding padding bitString =
     (if schar padding \<noteq> 8
      then take (nat ((int (length bitString) - schar padding) mod 2 ^ 64)) bitString
      else bitString)"

text \<open>
  The loop over the bits, with its state \<open>cur\<close> (the pointer \<^verbatim>\<open>curr\<close>), \<open>decodedChars\<close> and the
  output written so far. Neither \<open>cur\<close> nor the child it moves to is checked before it is dereferenced.
\<close>

fun decode_loop :: "node \<Rightarrow> nat \<Rightarrow> node \<Rightarrow> nat \<Rightarrow> string \<Rightarrow> string \<Rightarrow> fault + string" where
  "decode_loop root originalSize cur decodedChars out [] = Inr out"
| "decode_loop root originalSize cur decodedChars out (b # bits) =
     (if decodedChars \<ge> originalSize then Inr out
      else
        (case cur of Null \<Rightarrow> Inl NullDeref
         | Node c f l r \<Rightarrow>
             (case (if b = CHR ''0'' then l else r) of Null \<Rightarrow> Inl NullDeref
              | Node c' f' l' r' \<Rightarrow>
                  if l' = Null \<and> r' = Null
                  then decode_loop root originalSize root (decodedChars + 1) (out @ [c']) bits
                  else decode_loop root originalSize (Node c' f' l' r') decodedChars out bits)))"

subsection \<open>\<^verbatim>\<open>FileCompressor::decompress\<close> (lines 337-416)\<close>

text \<open>
  The result is the returned flag and the content of the output file. The only failure
  the function reports is a wrong magic tag. The byte read into \<open>delimiter\<close> is never
  looked at. A stream that ends before the padding byte leaves \<open>padding\<close> uninitialised,
  and a stream of fewer than four bytes leaves part of \<open>magic\<close> so.
\<close>

definition decompress :: "string \<Rightarrow> fault + (bool \<times> string)" where
  "decompress file =
     (if length file < 4 then Inl UninitRead
      else if take 4 file \<noteq> ''HUF1'' then Inr (False, [])
      else
        (case readTree (drop 4 file) of Inl e \<Rightarrow> Inl e
         | Inr (root, s1) \<Rightarrow>
             (let s2 = drop 1 s1;
                  originalSize = from_le (take 8 s2)
              in (case drop 8 s2 of [] \<Rightarrow> Inl UninitRead
                  | padding # payload \<Rightarrow>
                      (case decode_loop root originalSize root 0 []
                              (remove_padding padding (unpack_bits payload)) of
                         Inl e \<Rightarrow> Inl e
                       | Inr out \<Rightarrow> Inr (True, out))))))"

section \<open>Notions used in the statements\<close>

text \<open>
  None of the following is code of the program. \<open>is_bits\<close> says that a string holds only
  the characters '0' and '1'. On trees: \<open>is_leaf\<close> is the test
  \<^verbatim>\<open>!n->left && !n->right\<close>, \<open>full\<close> trees have no node with exactly one child, \<open>leaves\<close>
  lists the symbols from left to right, \<open>shape\<close> forgets the weights and the \<open>ch\<close> of
  inner nodes (what \<open>readTree\<close> can rebuild), and \<open>path_to t p c\<close> says that the bits \<open>p\<close>
  lead from \<open>t\<close> to the leaf of \<open>c\<close>. \<open>header_of\<close> and \<open>payload_of\<close> are the two parts of
  the container that \<open>write_container\<close> writes, \<open>code_bits\<close> the concatenated codes before
  padding, and \<open>single_tree\<close> the tree of the single-character case.
\<close>

definition is_bits :: "string \<Rightarrow> bool" where
  "is_bits s = (set s \<subseteq> {CHR ''0'', CHR ''1''})"

fun is_leaf :: "node \<Rightarrow> bool" where
  "is_leaf Null = False"
| "is_leaf (Node c f l r) = (l = Null \<and> r = Null)"

fun full :: "node \<Rightarrow> bool" where
  "full Null = False"
| "full (Node c f l r) = ((l = Null \<and> r = Null) \<or> (full l \<and> full r))"

fun leaves :: "node \<Rightarrow> string" where
  "leaves Null = []"
| "leaves (Node c f l r) = (if l = Null \<and> r = Null then [c] else leaves l @ leaves r)"

fun shape :: "node \<Rightarrow> node" where
  "shape Null = Null"
| "shape (Node c f l r) =
     (if l = Null \<and> r = Null then Node c 0 Null Null
      else Node (CHR 0x00) 0 (shape l) (shape r))"

fun path_to :: "node \<Rightarrow> string \<Rightarrow> char \<Rightarrow> bool" where
  "path_to Null p c = False"
| "path_to (Node ch f l r) p c =
     (if l = Null \<and> r = Null then p = [] \<and> ch = c
      else (case p of [] \<Rightarrow> False
            | b # p' \<Rightarrow> if b = CHR ''0'' then path_to l p' c else path_to r p' c))"

definition code_ok :: "node \<Rightarrow> (char \<rightharpoonup> string) \<Rightarrow> string \<Rightarrow> bool" where
  "code_ok root cm xs = (\<forall>c \<in> set xs. \<exists>p. cm c = Some p \<and> path_to root p c)"

fun weight :: "node \<Rightarrow> 32 word" where
  "weight Null = 0"
| "weight (Node c f l r) = f"

definition leaf_of :: "char \<times> 32 word \<Rightarrow> node" where
  "leaf_of e = Node (fst e) (snd e) Null Null"

definition merged :: "node \<Rightarrow> node \<Rightarrow> node" where
  "merged l r = Node (CHR 0x00) (weight l + weight r) l r"

definition forest_leaves :: "node multiset \<Rightarrow> char multiset" where
  "forest_leaves M = (\<Sum>t \<in># M. mset (leaves t))"

definition single_tree :: "char \<Rightarrow> 32 word \<Rightarrow> node" where
  "single_tree ch v = Node (CHR 0x00) v (Node ch v Null Null) Null"

definition code_bits :: "node \<Rightarrow> string \<Rightarrow> string" where
  "code_bits root input = encode_data (buildCodeMap root [] Map.empty) input"

definition header_of :: "node \<Rightarrow> string \<Rightarrow> string" where
  "header_of root input =
     ''HUF1'' @ writeTree root @ ''#'' @ le_bytes 8 (length input mod 2 ^ 64)
       @ [char_of (padding_of (code_bits root input))]"

definition payload_of :: "node \<Rightarrow> string \<Rightarrow> string" where
  "payload_of root input = pack_bytes (add_padding (code_bits root input))"




section \<open>Lemmas\<close>

subsection \<open>Bits, bytes and the size field\<close>

lemma is_bits_simps [simp]:
  "is_bits []" "is_bits (b # s) = ((b = CHR ''0'' \<or> b = CHR ''1'') \<and> is_bits s)"
  "is_bits (s @ t) = (is_bits s \<and> is_bits t)"
  by (auto simp: is_bits_def)

lemma is_bits_replicate [simp]: "is_bits (replicate n (CHR ''0''))"
  by (auto simp: is_bits_def)

lemma is_bits_take: "is_bits s \<Longrightarrow> is_bits (take n s)"
  by (auto simp: is_bits_def dest: in_set_takeD)

lemma is_bits_drop: "is_bits s \<Longrightarrow> is_bits (drop n s)"
  by (auto simp: is_bits_def dest: in_set_dropD)

lemma bit_char_eq: "b = CHR ''0'' \<or> b = CHR ''1'' \<Longrightarrow> bit_char (b = CHR ''1'') = b"
  by (auto simp: bit_char_def)

lemma length_8_conv:
  "length s = 8 \<Longrightarrow> \<exists>a b c d e f g h. s = [a, b, c, d, e, f, g, h]"
  by (auto simp: eval_nat_numeral length_Suc_conv)

lemma byte_to_bits_bits_to_byte:
  assumes "length s = 8" and "is_bits s"
  shows "byte_to_bits (bits_to_byte s) = s"
proof -
  from assms(1) obtain a b c d e f g h where s: "s = [a, b, c, d, e, f, g, h]"
    using length_8_conv by blast
  with assms(2) show ?thesis
    by (simp add: bits_to_byte_def bit_at_def bit_char_eq)
qed

lemma unpack_pack:
  "length s mod 8 = 0 \<Longrightarrow> is_bits s \<Longrightarrow> unpack_bits (pack_bytes s) = s"
proof (induction s rule: pack_bytes.induct)
  case 1
  then show ?case by (simp add: unpack_bits_def)
next
  case (2 b bs)
  let ?s = "b # bs"
  from "2.prems"(1) have len: "8 \<le> length ?s"
    by (metis length_greater_0_conv list.distinct(1) mod_less not_le_imp_less not_less_zero gr0I)
  then have l8: "length (take 8 ?s) = 8" by simp
  from "2.prems"(1) len have "(length ?s - 8) mod 8 = 0"
    by presburger
  then have "length (drop 8 ?s) mod 8 = 0"
    by simp
  moreover have "is_bits (drop 8 ?s)" using "2.prems"(2) by (rule is_bits_drop)
  ultimately have ih: "unpack_bits (pack_bytes (drop 8 ?s)) = drop 8 ?s"
    using "2.IH" by simp
  have "is_bits (take 8 ?s)" using "2.prems"(2) by (rule is_bits_take)
  with l8 have "byte_to_bits (bits_to_byte (take 8 ?s)) = take 8 ?s"
    by (simp add: byte_to_bits_bits_to_byte)
  with ih have "unpack_bits (pack_bytes ?s) = take 8 ?s @ drop 8 ?s"
    by (simp add: unpack_bits_def)
  then show ?case by (simp only: append_take_drop_id)
qed

lemma take_pack_bytes: "take j (pack_bytes s) = pack_bytes (take (8 * j) s)"
proof (induction s arbitrary: j rule: pack_bytes.induct)
  case 1
  then show ?case by simp
next
  case (2 b bs)
  show ?case
  proof (cases j)
    case 0
    then show ?thesis by simp
  next
    case (Suc i)
    have a: "take (8 * Suc i) (b # bs) = b # take (7 + 8 * i) bs" by (simp add: take_Cons')
    have b: "take 8 (b # take (7 + 8 * i) bs) = take 8 (b # bs)" by (simp add: take_Cons' min_def)
    have c: "drop 8 (b # take (7 + 8 * i) bs) = take (8 * i) (drop 8 (b # bs))"
      by (simp add: drop_Cons' drop_take)
    show ?thesis
      unfolding Suc a using "2.IH" [of i] b c by simp
  qed
qed

lemma length_pack_bytes: "length (pack_bytes s) = (length s + 7) div 8"
proof (induction s rule: pack_bytes.induct)
  case 1
  then show ?case by simp
next
  case (2 b bs)
  then show ?case by (simp add: drop_Cons') presburger
qed

lemma length_le_bytes [simp]: "length (le_bytes k n) = k"
  by (induction k arbitrary: n) auto

lemma from_le_le_bytes: "from_le (le_bytes k n) = n mod 256 ^ k"
proof (induction k arbitrary: n)
  case 0
  then show ?case by simp
next
  case (Suc k)
  have "from_le (le_bytes (Suc k) n) = n mod 256 + 256 * (n div 256 mod 256 ^ k)"
    by (simp add: Suc.IH)
  also have "\<dots> = n mod (256 * 256 ^ k)"
    by (simp add: mod_mult2_eq)
  finally show ?case by simp
qed

subsection \<open>Trees: serialisation, code table and the decoding walk\<close>

lemma shape_Null [simp]: "shape t = Null \<longleftrightarrow> t = Null"
  by (cases t) auto

lemma full_not_Null: "full t \<Longrightarrow> t \<noteq> Null"
  by auto

lemma readTree_writeTree:
  "full t \<Longrightarrow> readTree (writeTree t @ rest) = Inr (shape t, rest)"
proof (induction t arbitrary: rest)
  case Null
  then show ?case by simp
next
  case (Node c f l r)
  show ?case
  proof (cases "l = Null \<and> r = Null")
    case True
    then show ?thesis by simp
  next
    case False
    then have nl: "(l = Null \<and> r = Null) = False" by simp
    from False Node.prems have fl: "full l" and fr: "full r" by auto
    have "readTree (writeTree l @ (writeTree r @ rest)) = Inr (shape l, writeTree r @ rest)"
      using Node.IH(1) [OF fl] .
    moreover have "readTree (writeTree r @ rest) = Inr (shape r, rest)"
      using Node.IH(2) [OF fr] .
    ultimately show ?thesis by (simp add: nl)
  qed
qed

lemma path_to_shape [simp]: "path_to (shape t) p c = path_to t p c"
  by (induction t arbitrary: p) (auto split: list.splits)

lemma is_leaf_shape [simp]: "is_leaf (shape t) = is_leaf t"
  by (cases t) auto

lemma buildCodeMap_other:
  "c \<notin> set (leaves t) \<Longrightarrow> buildCodeMap t str m c = m c"
  by (induction t arbitrary: str m) auto

lemma buildCodeMap_path:
  "distinct (leaves t) \<Longrightarrow> c \<in> set (leaves t) \<Longrightarrow> str \<noteq> [] \<or> \<not> is_leaf t \<Longrightarrow>
   \<exists>p. buildCodeMap t str m c = Some (str @ p) \<and> path_to t p c"
proof (induction t arbitrary: str m)
  case Null
  then show ?case by simp
next
  case (Node ch f l r)
  show ?case
  proof (cases "l = Null \<and> r = Null")
    case True
    with Node.prems show ?thesis by auto
  next
    case False
    then have nl: "(l = Null \<and> r = Null) = False" by simp
    from False Node.prems have d: "distinct (leaves l)" "distinct (leaves r)"
      "set (leaves l) \<inter> set (leaves r) = {}" and c: "c \<in> set (leaves l) \<or> c \<in> set (leaves r)"
      by auto
    from c show ?thesis
    proof
      assume cl: "c \<in> set (leaves l)"
      with d have "c \<notin> set (leaves r)" by auto
      then have e: "buildCodeMap (Node ch f l r) str m c = buildCodeMap l (str @ ''0'') m c"
        by (simp add: nl buildCodeMap_other)
      from Node.IH(1) [OF d(1) cl, of "str @ ''0''" m]
      obtain p where "buildCodeMap l (str @ ''0'') m c = Some ((str @ ''0'') @ p)" "path_to l p c"
        by auto
      with e have "buildCodeMap (Node ch f l r) str m c = Some (str @ (CHR ''0'' # p))
        \<and> path_to (Node ch f l r) (CHR ''0'' # p) c" by (simp add: nl)
      then show ?thesis by blast
    next
      assume cr: "c \<in> set (leaves r)"
      have e: "buildCodeMap (Node ch f l r) str m c
                 = buildCodeMap r (str @ ''1'') (buildCodeMap l (str @ ''0'') m) c"
        by (simp add: nl)
      from Node.IH(2) [OF d(2) cr, of "str @ ''1''" "buildCodeMap l (str @ ''0'') m"]
      obtain p where "buildCodeMap r (str @ ''1'') (buildCodeMap l (str @ ''0'') m) c
                        = Some ((str @ ''1'') @ p)" "path_to r p c"
        by auto
      with e have "buildCodeMap (Node ch f l r) str m c = Some (str @ (CHR ''1'' # p))
        \<and> path_to (Node ch f l r) (CHR ''1'' # p) c" by (simp add: nl)
      then show ?thesis by blast
    qed
  qed
qed

lemma path_to_nonempty: "path_to t p c \<Longrightarrow> \<not> is_leaf t \<Longrightarrow> p \<noteq> []"
  by (cases t) (auto split: list.splits)

lemma decode_path:
  "path_to cur p c \<Longrightarrow> \<not> is_leaf cur \<Longrightarrow> k < n \<Longrightarrow>
   decode_loop root n cur k out (p @ rest) = decode_loop root n root (Suc k) (out @ [c]) rest"
proof (induction p arbitrary: cur)
  case Nil
  then show ?case using path_to_nonempty by blast
next
  case (Cons b p)
  from Cons.prems obtain ch f l r where cur: "cur = Node ch f l r" and nl: "\<not> (l = Null \<and> r = Null)"
    by (cases cur) auto
  let ?child = "if b = CHR ''0'' then l else r"
  from Cons.prems(1) cur nl have pc: "path_to ?child p c" by (auto split: if_splits)
  then obtain c' f' l' r' where child: "?child = Node c' f' l' r'"
    by (cases ?child) auto
  show ?case
  proof (cases "l' = Null \<and> r' = Null")
    case True
    with pc child have "p = []" "c' = c" by auto
    with True child cur Cons.prems(3) show ?thesis by simp
  next
    case False
    then have nl': "(l' = Null \<and> r' = Null) = False" by simp
    from False have "\<not> is_leaf ?child" using child by simp
    from Cons.IH [OF pc this Cons.prems(3)] child cur Cons.prems(3)
    show ?thesis by (simp add: nl')
  qed
qed

lemma decode_partial:
  "path_to cur (p1 @ p2) c \<Longrightarrow> p2 \<noteq> [] \<Longrightarrow> decode_loop root n cur k out p1 = Inr out"
proof (induction p1 arbitrary: cur)
  case Nil
  then show ?case by simp
next
  case (Cons b p)
  from Cons.prems have "\<not> is_leaf cur" by (cases cur) auto
  with Cons.prems obtain ch f l r where cur: "cur = Node ch f l r" and nl: "\<not> (l = Null \<and> r = Null)"
    by (cases cur) auto
  let ?child = "if b = CHR ''0'' then l else r"
  from Cons.prems(1) cur nl have pc: "path_to ?child (p @ p2) c" by (auto split: if_splits)
  then obtain c' f' l' r' where child: "?child = Node c' f' l' r'"
    by (cases ?child) auto
  with pc Cons.prems(2) have nl': "(l' = Null \<and> r' = Null) = False" by auto
  from Cons.IH [OF pc Cons.prems(2)] child cur
  show ?case by (simp add: nl')
qed

subsection \<open>Decoding a coded input; heaps and the priority queue\<close>

lemma decode_done: "n \<le> k \<Longrightarrow> decode_loop root n cur k out bits = Inr out"
  by (cases bits) auto

lemma code_ok_Cons:
  "code_ok root cm (a # xs) \<Longrightarrow> (\<exists>p. cm a = Some p \<and> path_to root p a) \<and> code_ok root cm xs"
  by (simp add: code_ok_def)

lemma encode_data_Cons: "encode_data cm (a # xs) = lookup cm a @ encode_data cm xs"
  by (simp add: encode_data_def)

lemma decode_encode:
  "code_ok root cm xs \<Longrightarrow> \<not> is_leaf root \<Longrightarrow> k + length xs \<le> n \<Longrightarrow>
   decode_loop root n root k out (encode_data cm xs @ rest)
     = decode_loop root n root (k + length xs) (out @ xs) rest"
proof (induction xs arbitrary: k out)
  case Nil
  then show ?case by (simp add: encode_data_def)
next
  case (Cons a xs)
  from code_ok_Cons [OF Cons.prems(1)] obtain p where
    p: "cm a = Some p" "path_to root p a" and ok: "code_ok root cm xs" by blast
  from Cons.prems(3) have k: "k < n" and k': "Suc k + length xs \<le> n" by simp_all
  have "decode_loop root n root k out (encode_data cm (a # xs) @ rest)
          = decode_loop root n root k out (p @ (encode_data cm xs @ rest))"
    using p(1) by (simp add: encode_data_Cons lookup_def)
  also have "\<dots> = decode_loop root n root (Suc k) (out @ [a]) (encode_data cm xs @ rest)"
    using decode_path [OF p(2) Cons.prems(2) k] .
  also have "\<dots> = decode_loop root n root (Suc k + length xs) ((out @ [a]) @ xs) rest"
    using Cons.IH [OF ok Cons.prems(2) k'] .
  finally show ?case by simp
qed

lemma decode_prefix:
  "code_ok root cm xs \<Longrightarrow> \<not> is_leaf root \<Longrightarrow> k + length xs \<le> n \<Longrightarrow>
   i < length (encode_data cm xs) \<Longrightarrow>
   \<exists>ys zs. decode_loop root n root k out (take i (encode_data cm xs)) = Inr (out @ ys)
     \<and> xs = ys @ zs \<and> zs \<noteq> []"
proof (induction xs arbitrary: k out i)
  case Nil
  then show ?case by (simp add: encode_data_def)
next
  case (Cons a xs)
  from code_ok_Cons [OF Cons.prems(1)] obtain p where
    p: "cm a = Some p" "path_to root p a" and ok: "code_ok root cm xs" by blast
  from Cons.prems(3) have k: "k < n" and k': "Suc k + length xs \<le> n" by simp_all
  have enc: "encode_data cm (a # xs) = p @ encode_data cm xs"
    using p(1) by (simp add: encode_data_Cons lookup_def)
  show ?case
  proof (cases "i < length p")
    case True
    then have t: "take i (encode_data cm (a # xs)) = take i p" by (simp add: enc)
    have "path_to root (take i p @ drop i p) a" using p(2) by simp
    moreover have "drop i p \<noteq> []" using True by simp
    ultimately have "decode_loop root n root k out (take i p) = Inr out"
      by (rule decode_partial)
    with t have "decode_loop root n root k out (take i (encode_data cm (a # xs))) = Inr (out @ [])
      \<and> a # xs = [] @ (a # xs) \<and> a # xs \<noteq> []" by simp
    then show ?thesis by blast
  next
    case False
    then have t: "take i (encode_data cm (a # xs)) = p @ take (i - length p) (encode_data cm xs)"
      by (simp add: enc)
    from False Cons.prems(4) have i': "i - length p < length (encode_data cm xs)"
      by (simp add: enc)
    from Cons.IH [OF ok Cons.prems(2) k' i', of "out @ [a]"] obtain ys zs where
      ys: "decode_loop root n root (Suc k) (out @ [a]) (take (i - length p) (encode_data cm xs))
             = Inr ((out @ [a]) @ ys)" "xs = ys @ zs" "zs \<noteq> []" by blast
    have "decode_loop root n root k out (take i (encode_data cm (a # xs)))
            = decode_loop root n root (Suc k) (out @ [a]) (take (i - length p) (encode_data cm xs))"
      unfolding t using decode_path [OF p(2) Cons.prems(2) k] .
    with ys have "decode_loop root n root k out (take i (encode_data cm (a # xs)))
                    = Inr (out @ (a # ys)) \<and> a # xs = (a # ys) @ zs \<and> zs \<noteq> []" by simp
    then show ?thesis by blast
  qed
qed

lemma heap_hd_min:
  "is_heap c \<Longrightarrow> i < length c \<Longrightarrow> key (hd c) \<le> key (c ! i)"
proof (induction i rule: less_induct)
  case (less i)
  show ?case
  proof (cases "i = 0")
    case True
    with less.prems show ?thesis by (cases c) auto
  next
    case False
    let ?j = "(i - 1) div 2"
    from False have j: "?j < i" by simp
    with less.prems have "key (hd c) \<le> key (c ! ?j)" by (intro less.IH) auto
    moreover from less.prems False have "\<not> Compare (c ! ?j) (c ! i)"
      by (simp add: is_heap_def)
    ultimately show ?thesis by (simp add: Compare_def)
  qed
qed

lemma heap_hd_le: "is_heap c \<Longrightarrow> x \<in> set c \<Longrightarrow> key (hd c) \<le> key x"
  by (auto simp: in_set_conv_nth heap_hd_min)

lemma sorted_is_heap: "sorted (map key c) \<Longrightarrow> is_heap c"
  unfolding is_heap_def Compare_def
proof
  fix i assume s: "sorted (map key c)" and i: "i \<in> {1..<length c}"
  then have j: "(i - 1) div 2 \<le> i" "i < length (map key c)" by auto
  with s have "map key c ! ((i - 1) div 2) \<le> map key c ! i" by (rule sorted_nth_mono)
  moreover from i j have "(i - 1) div 2 < length c" by simp
  ultimately have "key (c ! ((i - 1) div 2)) \<le> key (c ! i)" using i by simp
  then show "\<not> key (c ! ((i - 1) div 2)) > key (c ! i)" by simp
qed

lemma is_heap_Nil [simp]: "is_heap []"
  by (simp add: is_heap_def)

lemma is_heap_single [simp]: "is_heap [x]"
  by (simp add: is_heap_def)

lemma mset_hd_tl: "c \<noteq> [] \<Longrightarrow> add_mset (hd c) (mset (tl c)) = mset c"
  by (cases c) auto

lemma conforming_ref_lib: "conforming ref_lib"
  unfolding conforming_def ref_lib_def
  by (auto simp: sorted_is_heap mset_hd_tl)


lemma pq_push_ok:
  assumes "conforming lib" "is_heap c" "Null \<notin> set c" "x \<noteq> Null"
  shows "is_heap (pq_push lib x c)" "mset (pq_push lib x c) = add_mset x (mset c)"
proof -
  have "c @ [x] \<noteq> [] \<and> Null \<notin> set (c @ [x]) \<and> is_heap (butlast (c @ [x]))"
    using assms by auto
  with assms(1) have "is_heap (push_heap lib (c @ [x])) \<and> mset (push_heap lib (c @ [x])) = mset (c @ [x])"
    unfolding conforming_def by blast
  then show "is_heap (pq_push lib x c)" "mset (pq_push lib x c) = add_mset x (mset c)"
    by (simp_all add: pq_push_def)
qed

lemma pq_pop_ok:
  assumes "conforming lib" "is_heap c" "Null \<notin> set c" "c \<noteq> []"
  shows "\<exists>c1. pq_pop lib c = Inr c1 \<and> is_heap c1 \<and> mset c = add_mset (hd c) (mset c1)"
proof -
  let ?d = "pop_heap lib c"
  from assms have d: "last ?d = hd c" "is_heap (butlast ?d)" "mset ?d = mset c"
    unfolding conforming_def by blast+
  from d(3) assms(4) have ne: "?d \<noteq> []" by auto
  then have "mset ?d = add_mset (last ?d) (mset (butlast ?d))"
    by (metis append_butlast_last_id mset.simps(2) mset_append union_mset_add_mset_right add.right_neutral mset.simps(1))
  with d have "mset c = add_mset (hd c) (mset (butlast ?d))" by simp
  with d(2) assms(4) show ?thesis by (simp add: pq_pop_def)
qed

lemma pq_top_ok: "c \<noteq> [] \<Longrightarrow> pq_top c = Inr (hd c)"
  by (cases c) (auto simp: pq_top_def)

lemma mset_Null: "mset c = add_mset x (mset c1) \<Longrightarrow> Null \<notin> set c \<Longrightarrow> x \<noteq> Null \<and> Null \<notin> set c1"
  by (metis insert_iff set_mset_add_mset_insert set_mset_mset)

subsection \<open>Frequency table and the merging loop\<close>

lemma forest_leaves_simps [simp]:
  "forest_leaves {#} = {#}"
  "forest_leaves (add_mset t M) = mset (leaves t) + forest_leaves M"
  by (simp_all add: forest_leaves_def)

lemma keys_freq_incr:
  "map fst (freq_incr ch m) = (if ch \<in> fst ` set m then map fst m else map fst m @ [ch])"
  by (induction m) (force+)

lemma keys_foldl_freq_incr:
  "distinct (map fst m) \<Longrightarrow>
   distinct (map fst (foldl (\<lambda>m ch. freq_incr ch m) m xs)) \<and>
   set (map fst (foldl (\<lambda>m ch. freq_incr ch m) m xs)) = fst ` set m \<union> set xs"
proof (induction xs arbitrary: m)
  case Nil
  then show ?case by simp
next
  case (Cons a xs)
  have d: "distinct (map fst (freq_incr a m))"
    using Cons.prems by (simp add: keys_freq_incr)
  have s: "fst ` set (freq_incr a m) = insert a (fst ` set m)"
    using keys_freq_incr [of a m] by (metis (no_types, lifting) Un_insert_right insert_absorb list.set(1) list.set(2) set_append set_map sup_bot.right_neutral)
  from Cons.IH [OF d] s show ?case by auto
qed

lemma keys_count_freq:
  "distinct (map fst (count_freq x))" "set (map fst (count_freq x)) = set x"
  using keys_foldl_freq_incr [of "[]" x] by (simp_all add: count_freq_def)

lemma length_count_freq: "length (count_freq x) = card (set x)"
  using keys_count_freq [of x] by (metis distinct_card length_map)

lemma push_fold:
  "conforming lib \<Longrightarrow> is_heap c \<Longrightarrow> Null \<notin> set c \<Longrightarrow>
   is_heap (foldl (\<lambda>c (k, v). pq_push lib (Node k v Null Null) c) c es) \<and>
   mset (foldl (\<lambda>c (k, v). pq_push lib (Node k v Null Null) c) c es)
     = mset c + image_mset leaf_of (mset es)"
proof (induction es arbitrary: c)
  case Nil
  then show ?case by simp
next
  case (Cons e es)
  obtain k v where e: "e = (k, v)" by (cases e)
  let ?c = "pq_push lib (Node k v Null Null) c"
  have h: "is_heap ?c" and m: "mset ?c = add_mset (Node k v Null Null) (mset c)"
    using pq_push_ok [OF Cons.prems(1,2,3), of "Node k v Null Null"] by simp_all
  from m Cons.prems(3) have n: "Null \<notin> set ?c"
    by (metis insert_iff node.distinct(1) set_mset_add_mset_insert set_mset_mset)
  from Cons.IH [OF Cons.prems(1) h n] m e show ?case
    by (simp add: leaf_of_def)
qed

lemma push_all_ok:
  assumes "conforming lib"
  shows "is_heap (push_all lib fr)" "mset (push_all lib fr) = image_mset leaf_of (mset fr)"
proof -
  from assms have "mset (iter_order lib fr) = mset fr" by (simp add: conforming_def)
  with push_fold [OF assms, of "[]" "iter_order lib fr"]
  show "is_heap (push_all lib fr)" "mset (push_all lib fr) = image_mset leaf_of (mset fr)"
    by (simp_all add: push_all_def)
qed

lemma push_all_not_Null: "conforming lib \<Longrightarrow> Null \<notin> set (push_all lib fr)"
proof -
  assume "conforming lib"
  then have "set_mset (mset (push_all lib fr)) = leaf_of ` set fr"
    by (simp add: push_all_ok)
  then show ?thesis by (auto simp: leaf_of_def)
qed

lemma huffman_loop_step:
  assumes "conforming lib" "is_heap c" "Null \<notin> set c" "2 \<le> length c"
  shows "\<exists>l r c2. mset c = add_mset l (add_mset r (mset c2)) \<and> l \<noteq> Null \<and> r \<noteq> Null \<and>
           (\<forall>x \<in> set c. key l \<le> key x) \<and> (\<forall>x \<in># add_mset r (mset c2). key r \<le> key x) \<and>
           Null \<notin> set c2 \<and>
           huffman_loop lib c = huffman_loop lib (pq_push lib (merged l r) c2) \<and>
           is_heap (pq_push lib (merged l r) c2) \<and>
           mset (pq_push lib (merged l r) c2) = add_mset (merged l r) (mset c2)"
proof -
  from assms(4) have ne: "c \<noteq> []" by auto
  let ?l = "hd c"
  from pq_pop_ok [OF assms(1,2,3) ne] obtain c1 where
    c1: "pq_pop lib c = Inr c1" "is_heap c1" "mset c = add_mset ?l (mset c1)" by blast
  from mset_Null [OF c1(3) assms(3)] have l: "?l \<noteq> Null" and n1: "Null \<notin> set c1" by simp_all
  from c1(3) have "length c = Suc (length c1)"
    by (metis size_mset size_add_mset)
  with assms(4) have ne1: "c1 \<noteq> []" by auto
  let ?r = "hd c1"
  from pq_pop_ok [OF assms(1) c1(2) n1 ne1] obtain c2 where
    c2: "pq_pop lib c1 = Inr c2" "is_heap c2" "mset c1 = add_mset ?r (mset c2)" by blast
  from mset_Null [OF c2(3) n1] have r: "?r \<noteq> Null" and n2: "Null \<notin> set c2" by simp_all
  have m: "merged ?l ?r \<noteq> Null" by (simp add: merged_def)
  note p = pq_push_ok [OF assms(1) c2(2) n2 m]
  have minl: "\<forall>x \<in> set c. key ?l \<le> key x" using heap_hd_le [OF assms(2)] by blast
  have minr: "\<forall>x \<in># add_mset ?r (mset c2). key ?r \<le> key x"
    using heap_hd_le [OF c1(2)] c2(3) by (metis set_mset_mset)
  obtain lc lf ll lr where lN: "?l = Node lc lf ll lr" using l by (cases ?l) auto
  obtain rc rf rl rr where rN: "?r = Node rc rf rl rr" using r by (cases ?r) auto
  have "huffman_loop lib c = huffman_loop lib (pq_push lib (merged ?l ?r) c2)"
    apply (subst huffman_loop.simps)
    using assms(4) c1(1) c2(1) ne ne1
    apply (simp add: pq_top_ok)
    apply (simp add: lN rN merged_def)
    done
  with c1(3) c2(3) l r minl minr n2 p show ?thesis by auto
qed

lemma huffman_loop_ok:
  "conforming lib \<Longrightarrow> is_heap c \<Longrightarrow> Null \<notin> set c \<Longrightarrow> c \<noteq> [] \<Longrightarrow> \<forall>t \<in> set c. full t \<Longrightarrow>
   \<exists>t. huffman_loop lib c = Some (Inr [t]) \<and> full t \<and>
       mset (leaves t) = forest_leaves (mset c) \<and> (2 \<le> length c \<longrightarrow> \<not> is_leaf t)"
proof (induction "length c" arbitrary: c rule: less_induct)
  case less
  show ?case
  proof (cases "2 \<le> length c")
    case False
    with less.prems(4) have "length c = 1" by (cases c) (auto simp: not_le)
    then obtain t where c: "c = [t]"
      by (auto simp: length_Suc_conv)
    have "huffman_loop lib [t] = Some (Inr [t])"
      by (subst huffman_loop.simps) simp
    with c less.prems(5) show ?thesis by simp
  next
    case True
    from huffman_loop_step [OF less.prems(1,2,3) True] obtain l r c2 where
      s: "mset c = add_mset l (add_mset r (mset c2))" "l \<noteq> Null" "r \<noteq> Null"
         "Null \<notin> set c2"
         "huffman_loop lib c = huffman_loop lib (pq_push lib (merged l r) c2)"
         "is_heap (pq_push lib (merged l r) c2)"
         "mset (pq_push lib (merged l r) c2) = add_mset (merged l r) (mset c2)"
      by blast
    let ?c3 = "pq_push lib (merged l r) c2"
    from s(1) have setc: "set c = insert l (insert r (set c2))"
      by (metis set_mset_add_mset_insert set_mset_mset)
    from s(7) have setc3: "set ?c3 = insert (merged l r) (set c2)"
      by (metis set_mset_add_mset_insert set_mset_mset)
    from s(1) have lenc: "length c = Suc (Suc (length c2))"
      by (metis size_mset size_add_mset)
    from s(7) have lenc3: "length ?c3 = Suc (length c2)"
      by (metis size_mset size_add_mset)
    have fm: "full (merged l r)" using less.prems(5) setc by (simp add: merged_def)
    have lm: "leaves (merged l r) = leaves l @ leaves r" using s(2) by (simp add: merged_def)
    have nm: "\<not> is_leaf (merged l r)" using s(2) by (simp add: merged_def)
    have a1: "length ?c3 < length c" using lenc lenc3 by simp
    have a2: "Null \<notin> set ?c3" using setc3 s(4) by (simp add: merged_def)
    have a3: "?c3 \<noteq> []" using lenc3 by auto
    have a4: "\<forall>t \<in> set ?c3. full t" using setc3 fm less.prems(5) setc by auto
    from less.hyps [OF a1 less.prems(1) s(6) a2 a3 a4] obtain t where
      t: "huffman_loop lib ?c3 = Some (Inr [t])" "full t"
         "mset (leaves t) = forest_leaves (mset ?c3)" "2 \<le> length ?c3 \<longrightarrow> \<not> is_leaf t"
      by blast
    have "\<not> is_leaf t"
    proof (cases "2 \<le> length ?c3")
      case True
      with t(4) show ?thesis by simp
    next
      case False
      with lenc3 have "length ?c3 = 1" by (auto simp: not_le)
      then obtain u where u: "?c3 = [u]" by (auto simp: length_Suc_conv)
      with setc3 have "u = merged l r" by auto
      moreover have "huffman_loop lib [u] = Some (Inr [u])"
        by (subst huffman_loop.simps) simp
      ultimately show ?thesis using t(1) u nm by simp
    qed
    moreover have "forest_leaves (mset ?c3) = forest_leaves (mset c)"
      by (simp add: s(7) s(1) lm)
    ultimately show ?thesis using t s(5) by auto
  qed
qed

subsection \<open>The tree that compress builds\<close>

lemma mset_single_list: "mset c = {#x#} \<Longrightarrow> c = [x]"
  by simp

lemma forest_leaves_leaf_of: "forest_leaves (image_mset leaf_of M) = image_mset fst M"
  by (induction M) (auto simp: leaf_of_def)

lemma huffman_loop_short: "length c \<le> 1 \<Longrightarrow> huffman_loop lib c = Some (Inr c)"
  by (subst huffman_loop.simps) simp

lemma build_tree_empty:
  assumes "conforming lib"
  shows "build_tree lib [] = Some (Inl EmptyQueue)"
proof -
  have "mset (push_all lib []) = {#}" using push_all_ok(2) [OF assms, of "[]"] by simp
  then have "push_all lib [] = []" by simp
  then show ?thesis
    by (simp add: build_tree_def count_freq_def single_case_def huffman_loop_short pq_top_def)
qed

lemma build_tree_many:
  assumes "conforming lib" "2 \<le> card (set x)"
  shows "\<exists>t. build_tree lib x = Some (Inr t) \<and> full t \<and> \<not> is_leaf t \<and>
             distinct (leaves t) \<and> set (leaves t) = set x"
proof -
  let ?fr = "count_freq x"
  let ?c = "push_all lib ?fr"
  note pa = push_all_ok [OF assms(1), of ?fr]
  have len: "length ?c = card (set x)"
    using pa(2) by (metis length_count_freq size_mset size_image_mset)
  with assms(2) have ne: "?c \<noteq> []" and l2: "2 \<le> length ?c" by auto
  have sc: "single_case lib ?c = Inr ?c"
    using l2 by (simp add: single_case_def)
  have "set ?c = leaf_of ` set ?fr" using pa(2) by (metis set_image_mset set_mset_mset)
  then have fl: "\<forall>t \<in> set ?c. full t" by (auto simp: leaf_of_def)
  from huffman_loop_ok [OF assms(1) pa(1) push_all_not_Null [OF assms(1)] ne fl] l2
  obtain t where t: "huffman_loop lib ?c = Some (Inr [t])" "full t"
    "mset (leaves t) = forest_leaves (mset ?c)" "\<not> is_leaf t" by blast
  have "mset (leaves t) = mset (map fst ?fr)"
    using t(3) pa(2) by (simp add: forest_leaves_leaf_of)
  then have "distinct (leaves t)" "set (leaves t) = set x"
    using keys_count_freq [of x] by (metis mset_eq_imp_distinct_iff, metis mset_eq_setD)
  moreover have "build_tree lib x = Some (Inr t)"
    by (simp add: build_tree_def sc t(1) pq_top_def)
  ultimately show ?thesis using t(2,4) by blast
qed

lemma foldl_freq_incr_same:
  "foldl (\<lambda>m c. freq_incr c m) [(ch, v)] (replicate n ch) = [(ch, v + of_nat n)]"
  by (induction n arbitrary: v) (auto simp: algebra_simps)

lemma count_freq_replicate:
  "0 < n \<Longrightarrow> count_freq (replicate n ch) = [(ch, of_nat n)]"
proof -
  assume "0 < n"
  then obtain k where n: "n = Suc k" by (cases n) auto
  show ?thesis
    unfolding n count_freq_def using foldl_freq_incr_same [of ch 1 k] by simp
qed

lemma build_tree_single:
  assumes "conforming lib" "0 < n"
  shows "build_tree lib (replicate n ch) = Some (Inr (single_tree ch (of_nat n)))"
proof -
  let ?v = "of_nat n :: 32 word"
  let ?leaf = "Node ch ?v Null Null"
  let ?root = "single_tree ch ?v"
  have fr: "count_freq (replicate n ch) = [(ch, ?v)]" using assms(2) by (rule count_freq_replicate)
  have "mset (push_all lib [(ch, ?v)]) = {#?leaf#}"
    using push_all_ok(2) [OF assms(1), of "[(ch, ?v)]"] by (simp add: leaf_of_def)
  then have c: "push_all lib [(ch, ?v)] = [?leaf]" by (rule mset_single_list)
  from pq_pop_ok [OF assms(1), of "[?leaf]"] obtain c1 where
    c1: "pq_pop lib [?leaf] = Inr c1" "mset [?leaf] = add_mset ?leaf (mset c1)" by auto
  then have c1e: "c1 = []" by simp
  have "mset (pq_push lib ?root []) = {#?root#}"
    using pq_push_ok(2) [OF assms(1), of "[]" ?root] by (simp add: single_tree_def)
  then have p: "pq_push lib ?root [] = [?root]" by (rule mset_single_list)
  have "single_case lib [?leaf] = Inr [?root]"
    using c1(1) c1e p by (simp add: single_case_def pq_top_def single_tree_def)
  then show ?thesis
    by (simp add: build_tree_def fr c huffman_loop_short pq_top_def)
qed

subsection \<open>Padding\<close>

lemma padding_of_range: "1 \<le> padding_of b \<and> padding_of b \<le> 8"
  by (simp add: padding_of_def)

lemma padding_of_8: "padding_of b = 8 \<longleftrightarrow> length b mod 8 = 0"
proof -
  have "length b mod 8 < 8" by simp
  then show ?thesis unfolding padding_of_def by arith
qed

lemma add_padding_eq: "add_padding b = b @ replicate (padding_of b mod 8) (CHR ''0'')"
proof (cases "padding_of b = 8")
  case True
  then show ?thesis by (simp add: add_padding_def)
next
  case False
  with padding_of_range [of b] have "padding_of b mod 8 = padding_of b" by simp
  with False show ?thesis by (simp add: add_padding_def)
qed

lemma length_add_padding_mult: "length (add_padding b) = 8 * ((length b + 7) div 8)"
proof -
  define q m where "q = length b div 8" and "m = length b mod 8"
  have L: "length b = 8 * q + m" and m: "m < 8" by (simp_all add: q_def m_def)
  have d: "(8 * q + m + 7) div 8 = q + (m + 7) div 8" by simp
  show ?thesis
  proof (cases "m = 0")
    case True
    then have "padding_of b = 8" by (simp add: padding_of_def m_def)
    then show ?thesis using True L d by (simp add: add_padding_def)
  next
    case False
    with m have p: "padding_of b = 8 - m" "padding_of b \<noteq> 8" by (simp_all add: padding_of_def m_def)
    from False m have "(m + 7) div 8 = 1" by simp
    with p L d m show ?thesis by (simp add: add_padding_def)
  qed
qed

lemma length_add_padding: "length (add_padding b) mod 8 = 0"
  by (simp add: length_add_padding_mult)

lemma is_bits_add_padding: "is_bits b \<Longrightarrow> is_bits (add_padding b)"
  by (simp add: add_padding_def)

lemma of_char_char_of_small: "p < 256 \<Longrightarrow> of_char (char_of (p::nat)) = (int p)"
proof -
  assume "p < 256"
  have "(of_char (char_of p) :: nat) = p mod 256" by (rule of_char_of)
  then have "(of_char (char_of p) :: nat) = p" using \<open>p < 256\<close> by simp
  then have "int (of_char (char_of p)) = int p" by simp
  moreover have "int (of_char (char_of p)) = of_char (char_of p)" by (rule of_nat_of_char)
  ultimately show ?thesis by simp
qed

lemma schar_char_of: "p < 128 \<Longrightarrow> schar (char_of (p::nat)) = int p"
  by (simp add: schar_def of_char_char_of_small)

lemma remove_add_padding:
  assumes "length (add_padding b) < 2 ^ 64"
  shows "remove_padding (char_of (padding_of b)) (add_padding b) = b"
proof -
  let ?p = "padding_of b"
  have r: "1 \<le> ?p" "?p \<le> 8" using padding_of_range [of b] by simp_all
  then have s: "schar (char_of ?p) = int ?p" by (simp add: schar_char_of)
  show ?thesis
  proof (cases "?p = 8")
    case True
    with s have "schar (char_of ?p) = 8" by simp
    then show ?thesis by (simp add: remove_padding_def add_padding_def True)
  next
    case False
    then have a: "add_padding b = b @ replicate ?p (CHR ''0'')" by (simp add: add_padding_def)
    have "length b < 2 ^ 64" using assms a by simp
    then have "(int (length (add_padding b)) - int ?p) mod 2 ^ 64 = int (length b)"
      by (simp add: a)
    with False show ?thesis by (simp add: remove_padding_def s a)
  qed
qed

subsection \<open>Codes are bit strings\<close>

lemma buildCodeMap_bits:
  "is_bits str \<Longrightarrow> \<forall>c s. m c = Some s \<longrightarrow> is_bits s \<Longrightarrow>
   \<forall>c s. buildCodeMap t str m c = Some s \<longrightarrow> is_bits s"
proof (induction t arbitrary: str m)
  case Null
  then show ?case by simp
next
  case (Node ch f l r)
  let ?m1 = "if l = Null \<and> r = Null then m(ch \<mapsto> (if str = [] then ''0'' else str)) else m"
  have m1: "\<forall>c s. ?m1 c = Some s \<longrightarrow> is_bits s"
    using Node.prems(1,2) by auto
  let ?m2 = "buildCodeMap l (str @ ''0'') ?m1"
  have m2: "\<forall>c s. ?m2 c = Some s \<longrightarrow> is_bits s"
    by (rule Node.IH(1)) (use Node.prems(1) m1 in simp_all)
  have "\<forall>c s. buildCodeMap r (str @ ''1'') ?m2 c = Some s \<longrightarrow> is_bits s"
    by (rule Node.IH(2)) (use Node.prems(1) m2 in simp_all)
  then show ?case by simp
qed

lemma is_bits_encode_data:
  "is_bits (encode_data (buildCodeMap t [] Map.empty) x)"
proof -
  have "is_bits (lookup (buildCodeMap t [] Map.empty) c)" for c
    using buildCodeMap_bits [of "[]" Map.empty t]
    by (cases "buildCodeMap t [] Map.empty c") (auto simp: lookup_def)
  then show ?thesis
    by (induction x) (auto simp: encode_data_def)
qed

lemma code_ok_build:
  assumes "distinct (leaves t)" "set x \<subseteq> set (leaves t)" "\<not> is_leaf t"
  shows "code_ok t (buildCodeMap t [] Map.empty) x"
  unfolding code_ok_def
proof
  fix c assume "c \<in> set x"
  with assms(2) have "c \<in> set (leaves t)" by auto
  from buildCodeMap_path [OF assms(1) this, of "[]" Map.empty] assms(3)
  show "\<exists>p. buildCodeMap t [] Map.empty c = Some p \<and> path_to t p c" by simp
qed

lemma code_ok_shape: "code_ok (shape t) cm x = code_ok t cm x"
  by (simp add: code_ok_def)

lemma length_encode_data_ge:
  "code_ok t cm x \<Longrightarrow> \<not> is_leaf t \<Longrightarrow> length x \<le> length (encode_data cm x)"
proof (induction x)
  case Nil
  then show ?case by simp
next
  case (Cons a x)
  from code_ok_Cons [OF Cons.prems(1)] obtain p where
    p: "cm a = Some p" "path_to t p a" and ok: "code_ok t cm x" by blast
  from path_to_nonempty [OF p(2) Cons.prems(2)] have "1 \<le> length p" by (cases p) auto
  with Cons.IH [OF ok Cons.prems(2)] p(1) show ?case
    by (simp add: encode_data_Cons lookup_def)
qed

subsection \<open>Reading a container\<close>

lemma decompress_container:
  assumes "full t" "length S = 8"
  shows "decompress (''HUF1'' @ writeTree t @ ''#'' @ S @ [P] @ Y) =
           (case decode_loop (shape t) (from_le S) (shape t) 0 [] (remove_padding P (unpack_bits Y))
            of Inl e \<Rightarrow> Inl e | Inr out \<Rightarrow> Inr (True, out))"
proof -
  have "readTree (writeTree t @ (''#'' @ S @ [P] @ Y)) = Inr (shape t, ''#'' @ S @ [P] @ Y)"
    using assms(1) by (rule readTree_writeTree)
  with assms(2) show ?thesis
    by (simp add: decompress_def)
qed

subsection \<open>Round trip for inputs with two or more different bytes\<close>

lemma length_unpack_bits: "length (unpack_bits Y) = 8 * length Y"
proof (induction Y)
  case Nil
  then show ?case by (simp add: unpack_bits_def)
next
  case (Cons y Y)
  then show ?case by (cases y) (simp add: unpack_bits_def)
qed

lemma full_shape [simp]: "full (shape t) = full t"
  by (induction t) auto

lemma compress_build:
  "build_tree lib x = Some (Inr t) \<Longrightarrow> compress lib x = Some (Inr (write_container t x))"
  by (simp add: compress_def)

lemma roundtrip_many:
  assumes "conforming lib" "2 \<le> card (set x)"
  shows "\<exists>c. compress lib x = Some (Inr c) \<and> (length c < 2 ^ 61 \<longrightarrow> decompress c = Inr (True, x))"
proof -
  from build_tree_many [OF assms] obtain t where
    t: "build_tree lib x = Some (Inr t)" "full t" "\<not> is_leaf t"
       "distinct (leaves t)" "set (leaves t) = set x" by blast
  let ?cm = "buildCodeMap t [] Map.empty"
  let ?buf = "encode_data ?cm x"
  let ?S = "le_bytes 8 (length x mod 2 ^ 64)"
  let ?P = "char_of (padding_of ?buf)"
  let ?Y = "pack_bytes (add_padding ?buf)"
  let ?c = "write_container t x"
  have c: "?c = ''HUF1'' @ writeTree t @ ''#'' @ ?S @ [?P] @ ?Y"
    by (simp add: write_container_def Let_def)
  have ok: "code_ok t ?cm x" using t(4,5,3) by (intro code_ok_build) auto
  have up: "unpack_bits ?Y = add_padding ?buf"
    by (intro unpack_pack length_add_padding is_bits_add_padding is_bits_encode_data)
  have "decompress ?c = Inr (True, x)" if len: "length ?c < 2 ^ 61"
  proof -
    from len have "length ?Y < 2 ^ 61" unfolding c by simp
    then have "8 * length ?Y < 2 ^ 64" by simp
    then have lp: "length (add_padding ?buf) < 2 ^ 64"
      using length_unpack_bits [of ?Y] up by simp
    have "length x \<le> length ?buf" using ok t(3) by (rule length_encode_data_ge)
    also have "\<dots> \<le> length (add_padding ?buf)" by (simp add: add_padding_eq)
    finally have lx: "length x < 2 ^ 64" using lp by simp
    then have n: "from_le ?S = length x" by (simp add: from_le_le_bytes)
    have rp: "remove_padding ?P (unpack_bits ?Y) = ?buf"
      unfolding up using lp by (rule remove_add_padding)
    have "decode_loop (shape t) (length x) (shape t) 0 [] (?buf @ [])
            = decode_loop (shape t) (length x) (shape t) (0 + length x) ([] @ x) []"
      by (rule decode_encode) (simp_all add: code_ok_shape ok t(3))
    then have d: "decode_loop (shape t) (length x) (shape t) 0 [] ?buf = Inr x" by simp
    have "decompress ?c =
            (case decode_loop (shape t) (from_le ?S) (shape t) 0 []
                    (remove_padding ?P (unpack_bits ?Y))
             of Inl e \<Rightarrow> Inl e | Inr out \<Rightarrow> Inr (True, out))"
      unfolding c by (rule decompress_container) (simp_all add: t(2))
    also have "\<dots> = Inr (True, x)"
      unfolding n rp d by simp
    finally show ?thesis .
  qed
  with compress_build [OF t(1)] show ?thesis by blast
qed

lemma remove_padding_char_of:
  assumes "1 \<le> p" "p \<le> 8" "length s < 2 ^ 64"
  shows "remove_padding (char_of p) s =
           (if p = 8 then s else if p \<le> length s then take (length s - p) s else s)"
proof -
  have sc: "schar (char_of p) = int p" using assms(2) by (simp add: schar_char_of)
  show ?thesis
  proof (cases "p = 8")
    case True
    with sc show ?thesis by (simp add: remove_padding_def)
  next
    case False
    show ?thesis
    proof (cases "p \<le> length s")
      case True
      then have "(int (length s) - int p) mod 2 ^ 64 = int (length s - p)"
        using assms(3) by (simp add: of_nat_diff)
      then have e: "nat ((int (length s) - int p) mod 2 ^ 64) = length s - p"
        by (simp only: nat_int)
      have "remove_padding (char_of p) s = take (length s - p) s"
        unfolding remove_padding_def sc e using False by simp
      with False True show ?thesis by simp
    next
      case F: False
      then have "(int (length s) - int p) mod 2 ^ 64 = int (length s) - int p + 2 ^ 64"
        using assms(2) by (intro mod_pos_pos_trivial [THEN trans [rotated], OF _ _ mod_add_self2 [symmetric]]) auto
      then have "nat ((int (length s) - int p) mod 2 ^ 64) \<ge> length s"
        using assms(2,3) by auto
      then have "take (nat ((int (length s) - int p) mod 2 ^ 64)) s = s"
        by (rule take_all)
      moreover have "remove_padding (char_of p) s
                       = take (nat ((int (length s) - int p) mod 2 ^ 64)) s"
        unfolding remove_padding_def sc using False by simp
      ultimately show ?thesis using False F by simp
    qed
  qed
qed

subsection \<open>Truncated payloads\<close>

lemma write_container_split:
  "write_container root input = header_of root input @ payload_of root input"
  by (simp add: write_container_def header_of_def payload_of_def code_bits_def Let_def)

lemma unpack_payload: "unpack_bits (payload_of t x) = add_padding (code_bits t x)"
  unfolding payload_of_def code_bits_def
  by (intro unpack_pack length_add_padding is_bits_add_padding is_bits_encode_data)

lemma length_padded: "length (add_padding (code_bits t x)) = 8 * length (payload_of t x)"
  using length_unpack_bits [of "payload_of t x"] by (simp add: unpack_payload)

lemma length_code_bits:
  "length (code_bits t x) + padding_of (code_bits t x) mod 8 = 8 * length (payload_of t x)"
  using length_padded [of t x] by (simp add: add_padding_eq)

lemma truncated_bits:
  assumes j: "j < length (payload_of t x)" and big: "length (payload_of t x) < 2 ^ 61"
    and ne: "code_bits t x \<noteq> []"
  shows "\<exists>i < length (code_bits t x).
           remove_padding (char_of (padding_of (code_bits t x))) (unpack_bits (take j (payload_of t x)))
             = take i (code_bits t x)"
proof -
  let ?buf = "code_bits t x"
  let ?pad = "add_padding ?buf"
  let ?p = "padding_of ?buf"
  let ?Y = "payload_of t x"
  let ?s = "take (8 * j) ?pad"
  have lp: "length ?pad = 8 * length ?Y" by (rule length_padded)
  have bits: "is_bits ?pad"
    unfolding code_bits_def by (intro is_bits_add_padding is_bits_encode_data)
  have ls: "length ?s = 8 * j" using j lp by simp
  have "take j ?Y = pack_bytes ?s" by (simp add: payload_of_def take_pack_bytes)
  moreover have "unpack_bits (pack_bytes ?s) = ?s"
    using ls by (intro unpack_pack is_bits_take bits) simp
  ultimately have u: "unpack_bits (take j ?Y) = ?s" by simp
  have r: "1 \<le> ?p" "?p \<le> 8" using padding_of_range [of ?buf] by simp_all
  have "8 * j < 2 ^ 64" using j big by simp
  then have "length ?s < 2 ^ 64" using ls by simp
  from remove_padding_char_of [OF r this]
  have rp: "remove_padding (char_of ?p) ?s =
              (if ?p = 8 then ?s else if ?p \<le> 8 * j then take (8 * j - ?p) ?s else ?s)"
    by (simp only: ls)
  show ?thesis
  proof (cases "?p = 8")
    case True
    then have "?pad = ?buf" by (simp add: add_padding_def)
    with True rp u lp j show ?thesis by (intro exI [of _ "8 * j"]) simp
  next
    case False
    with r have p7: "?p mod 8 = ?p" by simp
    have pad: "?pad = ?buf @ replicate ?p (CHR ''0'')" using False by (simp add: add_padding_def)
    have lb: "length ?buf + ?p = 8 * length ?Y" using length_code_bits [of t x] p7 by simp
    show ?thesis
    proof (cases "?p \<le> 8 * j")
      case True
      have "take (8 * j - ?p) ?s = take (8 * j - ?p) ?pad" by (simp add: min_def)
      also have "\<dots> = take (8 * j - ?p) ?buf" using lb j True by (simp add: pad)
      finally have "remove_padding (char_of ?p) ?s = take (8 * j - ?p) ?buf"
        using rp False True by simp
      moreover have "8 * j - ?p < length ?buf" using lb j True r by linarith
      ultimately show ?thesis using u by (intro exI [of _ "8 * j - ?p"]) simp
    next
      case F: False
      with r have "j = 0" by simp
      then have s0: "?s = []" by simp
      from rp False F have "remove_padding (char_of ?p) ?s = ?s" by simp
      with s0 have "remove_padding (char_of ?p) ?s = take 0 ?buf" by simp
      with ne u show ?thesis by (intro exI [of _ 0]) simp
    qed
  qed
qed

subsection \<open>Inputs made of one repeated byte\<close>

lemma writeTree_single: "writeTree (single_tree ch v) = [CHR ''0'', CHR ''1'', ch]"
  by (simp add: single_tree_def)

lemma codes_single: "buildCodeMap (single_tree ch v) [] Map.empty = [ch \<mapsto> ''0'']"
  by (simp add: single_tree_def)

lemma concat_replicate_single: "concat (replicate n [a]) = replicate n a"
  by (induction n) auto

lemma code_bits_single: "code_bits (single_tree ch v) (replicate n ch) = replicate n (CHR ''0'')"
  by (simp add: code_bits_def codes_single encode_data_def lookup_def concat_replicate_single)

lemma add_padding_zeros:
  "add_padding (replicate n (CHR ''0'')) = replicate (8 * ((n + 7) div 8)) (CHR ''0'')"
proof -
  let ?b = "replicate n (CHR ''0'')"
  have "add_padding ?b = replicate (n + padding_of ?b mod 8) (CHR ''0'')"
    by (simp add: add_padding_eq replicate_add)
  moreover have "length (add_padding ?b) = 8 * ((n + 7) div 8)"
    using length_add_padding_mult [of ?b] by simp
  ultimately show ?thesis by (metis length_replicate)
qed

lemma pack_bytes_unfold:
  "s \<noteq> [] \<Longrightarrow> pack_bytes s = bits_to_byte (take 8 s) # pack_bytes (drop 8 s)"
  by (cases s) simp_all

lemma replicate_8: "replicate 8 a = [a, a, a, a, a, a, a, a]"
  by (simp add: eval_nat_numeral)

lemma pack_zeros: "pack_bytes (replicate (8 * m) (CHR ''0'')) = replicate m (CHR 0x00)"
proof (induction m)
  case 0
  then show ?case by simp
next
  case (Suc m)
  let ?s = "replicate (8 * Suc m) (CHR ''0'')"
  have ne: "?s \<noteq> []" by simp
  have t: "take 8 ?s = replicate 8 (CHR ''0'')" by (simp add: min_def)
  have d: "drop 8 ?s = replicate (8 * m) (CHR ''0'')" by simp
  have b: "bits_to_byte (replicate 8 (CHR ''0'')) = CHR 0x00"
    unfolding replicate_8 by (simp add: bits_to_byte_def bit_at_def)
  show ?case
    by (subst pack_bytes_unfold [OF ne]) (simp only: t d b Suc.IH replicate_Suc)
qed

lemma unpack_zeros: "unpack_bits (replicate k (CHR 0x00)) = replicate (8 * k) (CHR ''0'')"
proof (induction k)
  case 0
  then show ?case by (simp add: unpack_bits_def)
next
  case (Suc k)
  have "byte_to_bits (CHR 0x00) = replicate 8 (CHR ''0'')"
    unfolding replicate_8 by (simp add: bit_char_def)
  with Suc show ?case by (simp add: unpack_bits_def replicate_add [symmetric])
qed

lemma payload_single:
  "payload_of (single_tree ch v) (replicate n ch) = replicate ((n + 7) div 8) (CHR 0x00)"
  by (simp add: payload_of_def code_bits_single add_padding_zeros pack_zeros)

lemma readTree_single:
  "readTree ([CHR ''0'', CHR ''1'', ch] @ ''#'' @ rest)
     = Inr (Node (CHR 0x00) 0 (Node ch 0 Null Null) Null, rest)"
  by simp

lemma decode_zeros:
  "decode_loop (Node c0 f0 (Node ch f Null Null) Null) N (Node c0 f0 (Node ch f Null Null) Null)
     k out (replicate j (CHR ''0'')) = Inr (out @ replicate (min j (N - k)) ch)"
proof (induction j arbitrary: k out)
  case 0
  then show ?case by simp
next
  case (Suc j)
  show ?case
  proof (cases "N \<le> k")
    case True
    then show ?thesis by simp
  next
    case False
    then have "min (Suc j) (N - k) = Suc (min j (N - Suc k))" by (auto simp: min_def)
    with False Suc.IH [of "Suc k" "out @ [ch]"] show ?thesis
      by (simp add: replicate_append_same)
  qed
qed

lemma remove_padding_zero: "remove_padding (CHR 0x00) s = take (length s mod 2 ^ 64) s"
proof -
  have "schar (CHR 0x00) = 0" by (simp add: schar_def)
  moreover have "nat (int (length s) mod 2 ^ 64) = length s mod 2 ^ 64"
    by (simp add: nat_mod_distrib)
  ultimately show ?thesis unfolding remove_padding_def by simp
qed

lemma decompress_single:
  assumes "length S = 8" "0 < m"
  shows "\<exists>j \<le> 8 * (m - 1). decompress (''HUF1'' @ [CHR ''0'', CHR ''1'', ch] @ ''#'' @ S @ [P]
                       @ replicate m (CHR 0x00))
           = Inr (True, replicate j ch)"
proof -
  from assms(1) obtain a b c d e f g h where S: "S = [a, b, c, d, e, f, g, h]"
    using length_8_conv by blast
  from assms(2) obtain m' where m: "m = Suc m'" by (cases m) auto
  let ?root = "Node (CHR 0x00) 0 (Node ch 0 Null Null) Null"
  let ?N = "from_le [b, c, d, e, f, g, h, P]"
  let ?bits = "replicate (8 * m') (CHR ''0'')"
  let ?i = "length ?bits mod 2 ^ 64"
  have t: "take ?i ?bits = replicate (min ?i (8 * m')) (CHR ''0'')" by (simp add: min.commute)
  have "decompress (''HUF1'' @ [CHR ''0'', CHR ''1'', ch] @ ''#'' @ S @ [P] @ replicate m (CHR 0x00))
          = (case decode_loop ?root ?N ?root 0 [] (remove_padding (CHR 0x00) (unpack_bits (replicate m' (CHR 0x00))))
             of Inl e \<Rightarrow> Inl e | Inr out \<Rightarrow> Inr (True, out))"
    unfolding S m by (simp add: decompress_def)
  also have "\<dots> = Inr (True, replicate (min (min ?i (8 * m')) ?N) ch)"
    unfolding unpack_zeros remove_padding_zero t decode_zeros by simp
  finally show ?thesis using m by (intro exI [of _ "min (min ?i (8 * m')) ?N"]) simp
qed

lemma single_symbol_decompress:
  assumes "conforming lib" "0 < n"
  shows "\<exists>c j. compress lib (replicate n ch) = Some (Inr c) \<and>
               decompress c = Inr (True, replicate j ch) \<and> j < n"
proof -
  let ?x = "replicate n ch"
  let ?t = "single_tree ch (of_nat n)"
  let ?m = "(n + 7) div 8"
  have m: "0 < ?m" using assms(2) by simp
  have c: "compress lib ?x = Some (Inr (header_of ?t ?x @ payload_of ?t ?x))"
    using compress_build [OF build_tree_single [OF assms]] by (simp add: write_container_split)
  let ?S = "le_bytes 8 (length ?x mod 2 ^ 64)"
  let ?P = "char_of (padding_of (code_bits ?t ?x))"
  have w: "header_of ?t ?x @ payload_of ?t ?x
             = ''HUF1'' @ [CHR ''0'', CHR ''1'', ch] @ ''#'' @ ?S @ [?P] @ replicate ?m (CHR 0x00)"
    by (simp only: header_of_def payload_single writeTree_single append_assoc)
  from decompress_single [of ?S ?m ch ?P] m obtain j where
    j: "j \<le> 8 * (?m - 1)"
       "decompress (''HUF1'' @ [CHR ''0'', CHR ''1'', ch] @ ''#'' @ ?S @ [?P] @ replicate ?m (CHR 0x00))
          = Inr (True, replicate j ch)"
    by auto
  have "8 * (?m - 1) < n" using assms(2) by (simp add: algebra_simps)
  with j c w show ?thesis by (metis le_less_trans)
qed

subsection \<open>The tree of the example input\<close>

lemma count_freq_example:
  "count_freq ''aaaabbbcc'' = [(CHR ''a'', 4), (CHR ''b'', 3), (CHR ''c'', 2)]"
  by code_simp

lemma set_of_mset: "mset c = M \<Longrightarrow> set c = set_mset M"
  by (metis set_mset_mset)

lemma length_of_mset: "mset c = M \<Longrightarrow> length c = size M"
  by (metis size_mset)

lemma hd_in_mset: "mset c = add_mset l M \<Longrightarrow> l \<in> set c"
  by (metis set_mset_mset union_single_eq_member)

lemma min_of_three:
  assumes "l \<in> {Node (CHR ''a'') 4 Null Null, Node (CHR ''b'') 3 Null Null,
                 Node (CHR ''c'') 2 Null Null}"
    and "\<forall>x \<in> {Node (CHR ''a'') 4 Null Null, Node (CHR ''b'') 3 Null Null,
                  Node (CHR ''c'') 2 Null Null}. key l \<le> key x"
  shows "l = Node (CHR ''c'') 2 Null Null"
  using assms by auto

lemma min_of_two:
  assumes "r \<in> {Node (CHR ''a'') 4 Null Null, Node (CHR ''b'') 3 Null Null}"
    and "\<forall>x \<in> {Node (CHR ''a'') 4 Null Null, Node (CHR ''b'') 3 Null Null}. key r \<le> key x"
  shows "r = Node (CHR ''b'') 3 Null Null"
  using assms by auto

lemma min_of_last:
  assumes "l \<in> {Node (CHR 0x00) 5 (Node (CHR ''c'') 2 Null Null) (Node (CHR ''b'') 3 Null Null),
                 Node (CHR ''a'') 4 Null Null}"
    and "\<forall>x \<in> {Node (CHR 0x00) 5 (Node (CHR ''c'') 2 Null Null) (Node (CHR ''b'') 3 Null Null),
                 Node (CHR ''a'') 4 Null Null}. key l \<le> key x"
  shows "l = Node (CHR ''a'') 4 Null Null"
  using assms by auto

lemma build_tree_example:
  assumes "conforming lib"
  shows "build_tree lib ''aaaabbbcc'' =
           Some (Inr (Node (CHR 0x00) 9 (Node (CHR ''a'') 4 Null Null)
                        (Node (CHR 0x00) 5 (Node (CHR ''c'') 2 Null Null)
                                           (Node (CHR ''b'') 3 Null Null))))"
proof -
  define A B C where "A = Node (CHR ''a'') 4 Null Null" and "B = Node (CHR ''b'') 3 Null Null"
    and "C = Node (CHR ''c'') 2 Null Null"
  define M where "M = Node (CHR 0x00) 5 C B"
  define R where "R = Node (CHR 0x00) 9 A M"
  define c where "c = push_all lib (count_freq ''aaaabbbcc'')"
  note pa = push_all_ok [OF assms, of "count_freq ''aaaabbbcc''", folded c_def]
  have mc: "mset c = {#A, B, C#}"
    using pa(2) by (simp add: count_freq_example leaf_of_def A_def B_def C_def)
  have len: "length c = 3" using length_of_mset [OF mc] by simp
  have setc: "set c = {A, B, C}" using set_of_mset [OF mc] by simp
  have nn: "Null \<notin> set c" unfolding c_def by (rule push_all_not_Null [OF assms])
  have sc: "single_case lib c = Inr c" using len by (simp add: single_case_def)
  \<comment> \<open>first iteration: the two lightest nodes are c and b\<close>
  have l2: "2 \<le> length c" using len by simp
  from huffman_loop_step [OF assms pa(1) nn l2] obtain l r c2 where
    s1: "mset c = add_mset l (add_mset r (mset c2))"
        "\<forall>x \<in> set c. key l \<le> key x" "\<forall>x \<in># add_mset r (mset c2). key r \<le> key x"
        "huffman_loop lib c = huffman_loop lib (pq_push lib (merged l r) c2)"
        "is_heap (pq_push lib (merged l r) c2)"
        "mset (pq_push lib (merged l r) c2) = add_mset (merged l r) (mset c2)"
    by blast
  have "l \<in> set c" using s1(1) by (rule hd_in_mset)
  then have l: "l = C"
    using s1(2) unfolding setc A_def B_def C_def by (rule min_of_three)
  have rest: "add_mset r (mset c2) = {#A, B#}"
    using s1(1) unfolding mc l by (simp, metis add_mset_commute)
  then have "r \<in> set_mset {#A, B#}" by (metis union_single_eq_member)
  then have "r \<in> {A, B}" by simp
  moreover have "\<forall>x \<in> {A, B}. key r \<le> key x" using s1(3) unfolding rest by simp
  ultimately have r: "r = B" unfolding A_def B_def by (rule min_of_two)
  have "add_mset B (mset c2) = add_mset B {#A#}"
    using rest unfolding r by (simp add: add_mset_commute)
  then have "mset c2 = {#A#}" by simp
  then have c2: "c2 = [A]" by simp
  have m1: "merged l r = M" by (simp add: merged_def l r M_def C_def B_def)
  define d where "d = pq_push lib M [A]"
  from s1(4,5,6) have d: "huffman_loop lib c = huffman_loop lib d" "is_heap d"
    "mset d = {#M, A#}" unfolding m1 c2 d_def by simp_all
  have lend: "2 \<le> length d" using length_of_mset [OF d(3)] by simp
  have setd: "set d = {M, A}" using set_of_mset [OF d(3)] by simp
  then have nnd: "Null \<notin> set d" by (simp add: M_def A_def)
  \<comment> \<open>second iteration: a and the merged node\<close>
  from huffman_loop_step [OF assms d(2) nnd lend] obtain l' r' c2' where
    s2: "mset d = add_mset l' (add_mset r' (mset c2'))"
        "\<forall>x \<in> set d. key l' \<le> key x"
        "huffman_loop lib d = huffman_loop lib (pq_push lib (merged l' r') c2')"
        "mset (pq_push lib (merged l' r') c2') = add_mset (merged l' r') (mset c2')"
    by blast
  have "l' \<in> set d" using s2(1) by (rule hd_in_mset)
  then have l': "l' = A"
    using s2(2) unfolding setd M_def A_def B_def C_def by (rule min_of_last)
  have "add_mset A (add_mset r' (mset c2')) = add_mset A {#M#}"
    using s2(1) unfolding d(3) l' by (simp add: add_mset_commute)
  then have "add_mset r' (mset c2') = {#M#}" by simp
  then have r': "r' = M" and c2': "c2' = []" by simp_all
  have m2: "merged l' r' = R" by (simp add: merged_def l' r' R_def M_def A_def)
  have "mset (pq_push lib R []) = {#R#}" using s2(4) unfolding m2 c2' by simp
  then have "pq_push lib R [] = [R]" by simp
  with s2(3) have "huffman_loop lib d = huffman_loop lib [R]" unfolding m2 c2' by simp
  with d(1) have "huffman_loop lib c = Some (Inr [R])" by (simp add: huffman_loop_short)
  then have "build_tree lib ''aaaabbbcc'' = Some (Inr R)"
    unfolding build_tree_def c_def [symmetric] sc by (simp add: pq_top_def)
  then show ?thesis unfolding R_def M_def A_def B_def C_def .
qed

subsection \<open>The decoding walk never meets a missing child\<close>

lemma decode_full:
  "full root \<Longrightarrow> \<not> is_leaf root \<Longrightarrow> full cur \<Longrightarrow> \<not> is_leaf cur \<Longrightarrow>
   \<exists>out'. decode_loop root n cur k out bits = Inr out'"
proof (induction bits arbitrary: cur k out)
  case Nil
  then show ?case by simp
next
  case (Cons b bits)
  show ?case
  proof (cases "n \<le> k")
    case True
    then show ?thesis by simp
  next
    case False
    from Cons.prems(3,4) obtain c f l r where cur: "cur = Node c f l r"
      and fl: "full l" and fr: "full r"
      by (cases cur) auto
    let ?child = "if b = CHR ''0'' then l else r"
    have fc: "full ?child" using fl fr by simp
    then obtain c' f' l' r' where child: "?child = Node c' f' l' r'"
      by (cases ?child) auto
    show ?thesis
    proof (cases "l' = Null \<and> r' = Null")
      case True
      from Cons.IH [OF Cons.prems(1,2) Cons.prems(1,2), of "k + 1" "out @ [c']"]
      show ?thesis using False cur child True by simp
    next
      case F: False
      then have nl: "(l' = Null \<and> r' = Null) = False" by simp
      have "\<not> is_leaf ?child" using child F by simp
      from Cons.IH [OF Cons.prems(1,2) fc this, of k out]
      show ?thesis using False cur child by (simp add: nl)
    qed
  qed
qed

lemma one_symbol:
  assumes "x \<noteq> []" "card (set x) < 2"
  shows "x = replicate (length x) (hd x)"
proof -
  from assms(1) have "card (set x) \<noteq> 0" by simp
  with assms(2) have "card (set x) = 1" by linarith
  then obtain a where a: "set x = {a}" by (auto simp: card_1_singleton_iff)
  with assms(1) have "hd x = a" by (cases x) auto
  with a have "\<forall>y \<in> set x. y = hd x" by simp
  then show ?thesis by (simp add: replicate_length_same)
qed

lemma buildCodeMap_nonempty:
  "\<forall>c. m c \<noteq> Some [] \<Longrightarrow> \<forall>c. buildCodeMap t str m c \<noteq> Some []"
proof (induction t arbitrary: str m)
  case Null
  then show ?case by simp
next
  case (Node ch f l r)
  let ?m1 = "if l = Null \<and> r = Null then m(ch \<mapsto> (if str = [] then ''0'' else str)) else m"
  have m1: "\<forall>c. ?m1 c \<noteq> Some []" using Node.prems by auto
  have m2: "\<forall>c. buildCodeMap l (str @ ''0'') ?m1 c \<noteq> Some []"
    by (rule Node.IH(1)) (rule m1)
  have "\<forall>c. buildCodeMap r (str @ ''1'') (buildCodeMap l (str @ ''0'') ?m1) c \<noteq> Some []"
    by (rule Node.IH(2)) (rule m2)
  then show ?case by simp
qed

lemma lookup_code_nonempty:
  "code_ok t cm x \<Longrightarrow> \<not> is_leaf t \<Longrightarrow> \<forall>c \<in> set x. lookup cm c \<noteq> []"
  unfolding code_ok_def lookup_def using path_to_nonempty by fastforce

lemma single_tree_code_ok:
  "code_ok (single_tree ch v) (buildCodeMap (single_tree ch v) [] Map.empty) (replicate n ch)"
  by (auto simp: code_ok_def codes_single single_tree_def)

lemma build_tree_nonempty:
  assumes "conforming lib" "x \<noteq> []"
  shows "\<exists>t. build_tree lib x = Some (Inr t) \<and> \<not> is_leaf t \<and>
             code_ok t (buildCodeMap t [] Map.empty) x \<and>
             (card (set x) < 2 \<longrightarrow> t = single_tree (hd x) (of_nat (length x))) \<and>
             (2 \<le> card (set x) \<longrightarrow> full t \<and> distinct (leaves t) \<and> set (leaves t) = set x)"
proof (cases "2 \<le> card (set x)")
  case True
  from build_tree_many [OF assms(1) True] obtain t where
    t: "build_tree lib x = Some (Inr t)" "full t" "\<not> is_leaf t"
       "distinct (leaves t)" "set (leaves t) = set x" by blast
  have "code_ok t (buildCodeMap t [] Map.empty) x" using t(4,5,3) by (intro code_ok_build) auto
  with t True show ?thesis by auto
next
  case False
  then have c: "card (set x) < 2" by simp
  let ?n = "length x" and ?ch = "hd x"
  have x: "x = replicate ?n ?ch" using assms(2) c by (rule one_symbol)
  have n: "0 < ?n" using assms(2) by simp
  have "build_tree lib (replicate ?n ?ch) = Some (Inr (single_tree ?ch (of_nat ?n)))"
    using assms(1) n by (rule build_tree_single)
  moreover have "code_ok (single_tree ?ch (of_nat ?n))
                   (buildCodeMap (single_tree ?ch (of_nat ?n)) [] Map.empty) (replicate ?n ?ch)"
    by (rule single_tree_code_ok)
  moreover have "\<not> is_leaf (single_tree ?ch (of_nat ?n))" by (simp add: single_tree_def)
  ultimately show ?thesis using x c by (metis not_le)
qed

subsection \<open>Evaluation on small inputs\<close>

lemma eight: "(8::nat) = Suc (Suc (Suc (Suc (Suc (Suc (Suc (Suc 0)))))))"
  by simp

lemma le_bytes_8: "le_bytes 8 n = le_bytes (Suc (Suc (Suc (Suc (Suc (Suc (Suc (Suc 0)))))))) n"
  by (simp only: eight [symmetric])

lemma char_of_nat_simps:
  "char_of (0::nat) = CHR 0x00" "char_of (Suc 0) = CHR 0x01" "char_of (2::nat) = CHR 0x02"
  "char_of (6::nat) = CHR 0x06" "char_of (7::nat) = CHR 0x07" "char_of (8::nat) = CHR 0x08"
  "char_of (9::nat) = CHR 0x09"
  by (simp_all add: char_of_def bit_Suc_0_iff)

lemma char_of_Suc_Suc_0: "char_of (Suc (Suc 0)) = CHR 0x02"
  using char_of_nat_simps(3) by (simp add: numeral_2_eq_2)

lemma compress_eval:
  assumes "build_tree lib x = Some (Inr t)" "writeTree t = W" "code_bits t x = B"
    "padding_of B = p" "pack_bytes (add_padding B) = Y" "le_bytes 8 (length x mod 2 ^ 64) = S"
  shows "compress lib x = Some (Inr (''HUF1'' @ W @ ''#'' @ S @ [char_of p] @ Y))"
  using compress_build [OF assms(1)]
  unfolding write_container_split header_of_def payload_of_def assms(2-6) by simp

lemma build_tree_a:
  "build_tree ref_lib ''a'' = Some (Inr (Node (CHR 0x00) 1 (Node (CHR ''a'') 1 Null Null) Null))"
  by code_simp

lemma compress_a:
  "compress ref_lib ''a'' =
     Some (Inr (''HUF101a#'' @ [CHR 0x01, CHR 0x00, CHR 0x00, CHR 0x00, CHR 0x00, CHR 0x00,
                                 CHR 0x00, CHR 0x00, CHR 0x07, CHR 0x00]))"
proof -
  let ?t = "Node (CHR 0x00) 1 (Node (CHR ''a'') 1 Null Null) Null"
  have "writeTree ?t = ''01a''" by simp
  moreover have "code_bits ?t ''a'' = ''0''" by code_simp
  moreover have "padding_of ''0'' = 7" by code_simp
  moreover have "pack_bytes (add_padding ''0'') = [CHR 0x00]" by code_simp
  moreover have "le_bytes 8 (length ''a'' mod 2 ^ 64)
                   = [CHR 0x01, CHR 0x00, CHR 0x00, CHR 0x00, CHR 0x00, CHR 0x00, CHR 0x00, CHR 0x00]"
    by (simp add: le_bytes_8 char_of_nat_simps char_of_Suc_Suc_0)
  ultimately show ?thesis
    using compress_eval [OF build_tree_a] by (simp add: char_of_nat_simps)
qed

lemma build_tree_ab:
  "build_tree ref_lib ''ab'' =
     Some (Inr (Node (CHR 0x00) 2 (Node (CHR ''a'') 1 Null Null) (Node (CHR ''b'') 1 Null Null)))"
  by code_simp


lemma compress_ab:
  "compress ref_lib ''ab'' =
     Some (Inr (''HUF101a1b#'' @ [CHR 0x02, CHR 0x00, CHR 0x00, CHR 0x00, CHR 0x00, CHR 0x00,
                                   CHR 0x00, CHR 0x00, CHR 0x06, CHR 0x40]))"
proof -
  let ?t = "Node (CHR 0x00) 2 (Node (CHR ''a'') 1 Null Null) (Node (CHR ''b'') 1 Null Null)"
  have "writeTree ?t = ''01a1b''" by simp
  moreover have "code_bits ?t ''ab'' = ''01''" by code_simp
  moreover have "padding_of ''01'' = 6" by code_simp
  moreover have "pack_bytes (add_padding ''01'') = [CHR 0x40]" by code_simp
  moreover have "le_bytes 8 (length ''ab'' mod 2 ^ 64)
                   = [CHR 0x02, CHR 0x00, CHR 0x00, CHR 0x00, CHR 0x00, CHR 0x00, CHR 0x00, CHR 0x00]"
    by (simp add: le_bytes_8 char_of_nat_simps char_of_Suc_Suc_0)
  ultimately show ?thesis
    using compress_eval [OF build_tree_ab] by (simp add: char_of_nat_simps)
qed


lemma decompress_ab_truncated:
  "decompress (''HUF101a1b#'' @ [CHR 0x02, CHR 0x00, CHR 0x00, CHR 0x00, CHR 0x00, CHR 0x00,
                                   CHR 0x00, CHR 0x00, CHR 0x06]) = Inr (True, [])"
  by (simp add: decompress_def remove_padding_def schar_def unpack_bits_def)

lemma card_ab: "2 \<le> card (set ''ab'')"
  by simp

subsection \<open>Inputs without equal weights\<close>





subsection \<open>The container of one repeated byte, as decompress reads it\<close>

lemma length_remove_padding_zero: "length (remove_padding (CHR 0x00) s) \<le> length s"
  by (simp add: remove_padding_zero)

lemma decompress_single_steps:
  assumes "length S = 8"
  shows "readTree (drop 4 (''HUF1'' @ [CHR ''0'', CHR ''1'', ch] @ ''#'' @ S @ P # Z # rest))
           = Inr (Node (CHR 0x00) 0 (Node ch 0 Null Null) Null, S @ P # Z # rest)"
    and "drop 8 (drop 1 (S @ P # Z # rest)) = Z # rest"
    and "decompress (''HUF1'' @ [CHR ''0'', CHR ''1'', ch] @ ''#'' @ S @ P # Z # rest)
           = (case decode_loop (Node (CHR 0x00) 0 (Node ch 0 Null Null) Null)
                     (from_le (take 8 (drop 1 (S @ P # Z # rest))))
                     (Node (CHR 0x00) 0 (Node ch 0 Null Null) Null) 0 []
                     (remove_padding Z (unpack_bits rest)) of
                Inl e \<Rightarrow> Inl e | Inr out \<Rightarrow> Inr (True, out))"
proof -
  from assms obtain a b c d e f g h where S: "S = [a, b, c, d, e, f, g, h]"
    using length_8_conv by blast
  show "readTree (drop 4 (''HUF1'' @ [CHR ''0'', CHR ''1'', ch] @ ''#'' @ S @ P # Z # rest))
           = Inr (Node (CHR 0x00) 0 (Node ch 0 Null Null) Null, S @ P # Z # rest)"
    by simp
  show "drop 8 (drop 1 (S @ P # Z # rest)) = Z # rest"
    unfolding S by simp
  show "decompress (''HUF1'' @ [CHR ''0'', CHR ''1'', ch] @ ''#'' @ S @ P # Z # rest)
           = (case decode_loop (Node (CHR 0x00) 0 (Node ch 0 Null Null) Null)
                     (from_le (take 8 (drop 1 (S @ P # Z # rest))))
                     (Node (CHR 0x00) 0 (Node ch 0 Null Null) Null) 0 []
                     (remove_padding Z (unpack_bits rest)) of
                Inl e \<Rightarrow> Inl e | Inr out \<Rightarrow> Inr (True, out))"
    unfolding S by (simp add: decompress_def)
qed

subsection \<open>The padding steps of compress and decompress\<close>

lemma padding_steps:
  assumes "conforming lib" "x \<noteq> []"
  shows "\<exists>root buffer p.
           build_tree lib x = Some (Inr root) \<and>
           compress lib x = Some (Inr (header_of root x @ payload_of root x)) \<and>
           buffer = code_bits root x \<and> p = padding_of buffer \<and>
           last (header_of root x) = char_of p \<and> char_of p \<noteq> CHR 0x00 \<and>
           1 \<le> p \<and> p \<le> 8 \<and> (p = 8 \<longleftrightarrow> length buffer mod 8 = 0) \<and>
           add_padding buffer = buffer @ replicate (p mod 8) (CHR ''0'') \<and>
           length (add_padding buffer) mod 8 = 0 \<and>
           payload_of root x = pack_bytes (add_padding buffer) \<and>
           unpack_bits (payload_of root x) = add_padding buffer \<and>
           (length (payload_of root x) < 2 ^ 61 \<longrightarrow>
              remove_padding (char_of p) (unpack_bits (payload_of root x))
                = (if p = 8 then unpack_bits (payload_of root x)
                   else take (length (unpack_bits (payload_of root x)) - p)
                          (unpack_bits (payload_of root x))) \<and>
              remove_padding (char_of p) (unpack_bits (payload_of root x)) = buffer \<and>
              (2 \<le> card (set x) \<longrightarrow>
                 decompress (header_of root x @ payload_of root x)
                   = (case decode_loop (shape root) (length x) (shape root) 0 [] buffer of
                        Inl e \<Rightarrow> Inl e | Inr out \<Rightarrow> Inr (True, out))))"
proof -
  from build_tree_nonempty [OF assms] obtain t where
    t: "build_tree lib x = Some (Inr t)" and nl: "\<not> is_leaf t"
    and ok: "code_ok t (buildCodeMap t [] Map.empty) x"
    and ft: "2 \<le> card (set x) \<longrightarrow> full t" by blast
  define buffer where "buffer = code_bits t x"
  define p where "p = padding_of buffer"
  have c: "compress lib x = Some (Inr (header_of t x @ payload_of t x))"
    using compress_build [OF t] by (simp add: write_container_split)
  have r: "1 \<le> p" "p \<le> 8" unfolding p_def using padding_of_range [of buffer] by simp_all
  have l: "last (header_of t x) = char_of p"
    by (simp add: header_of_def p_def buffer_def)
  have "(of_char (char_of p) :: int) = int p" using r by (simp add: of_char_char_of_small)
  then have "(of_char (char_of p) :: int) \<noteq> of_char (CHR 0x00)" using r by simp
  then have nz: "char_of p \<noteq> CHR 0x00" by metis
  have e: "p = 8 \<longleftrightarrow> length buffer mod 8 = 0" unfolding p_def by (rule padding_of_8)
  have a: "add_padding buffer = buffer @ replicate (p mod 8) (CHR ''0'')"
    unfolding p_def by (rule add_padding_eq)
  have m: "length (add_padding buffer) mod 8 = 0" by (rule length_add_padding)
  have y: "payload_of t x = pack_bytes (add_padding buffer)"
    by (simp add: payload_of_def buffer_def)
  have u: "unpack_bits (payload_of t x) = add_padding buffer"
    unfolding buffer_def by (rule unpack_payload)
  have s: "remove_padding (char_of p) (unpack_bits (payload_of t x))
             = (if p = 8 then unpack_bits (payload_of t x)
                else take (length (unpack_bits (payload_of t x)) - p)
                       (unpack_bits (payload_of t x))) \<and>
           remove_padding (char_of p) (unpack_bits (payload_of t x)) = buffer \<and>
           (2 \<le> card (set x) \<longrightarrow>
              decompress (header_of t x @ payload_of t x)
                = (case decode_loop (shape t) (length x) (shape t) 0 [] buffer of
                     Inl e \<Rightarrow> Inl e | Inr out \<Rightarrow> Inr (True, out)))"
    if big: "length (payload_of t x) < 2 ^ 61"
  proof -
    have lp: "length (add_padding buffer) = 8 * length (payload_of t x)"
      unfolding buffer_def by (rule length_padded)
    with big have lt: "length (add_padding buffer) < 2 ^ 64" by simp
    have rb: "remove_padding (char_of p) (add_padding buffer) = buffer"
      unfolding p_def using lt by (rule remove_add_padding)
    have "p \<le> length (add_padding buffer)" if "p \<noteq> 8"
      using that r a by simp
    with remove_padding_char_of [OF r lt] rb
    have strip: "remove_padding (char_of p) (unpack_bits (payload_of t x))
             = (if p = 8 then unpack_bits (payload_of t x)
                else take (length (unpack_bits (payload_of t x)) - p)
                       (unpack_bits (payload_of t x)))"
      and rb': "remove_padding (char_of p) (unpack_bits (payload_of t x)) = buffer"
      unfolding u by auto
    have dec: "decompress (header_of t x @ payload_of t x)
                = (case decode_loop (shape t) (length x) (shape t) 0 [] buffer of
                     Inl e \<Rightarrow> Inl e | Inr out \<Rightarrow> Inr (True, out))"
      if two: "2 \<le> card (set x)"
    proof -
      from ft two have full: "full t" by simp
      let ?S = "le_bytes 8 (length x mod 2 ^ 64)"
      have "length x \<le> length buffer"
        unfolding buffer_def code_bits_def using ok nl by (rule length_encode_data_ge)
      also have "\<dots> \<le> length (add_padding buffer)" by (simp add: a)
      finally have "length x < 2 ^ 64" using lt by simp
      then have n: "from_le ?S = length x" by (simp add: from_le_le_bytes)
      have "decompress (header_of t x @ payload_of t x)
              = (case decode_loop (shape t) (from_le ?S) (shape t) 0 []
                        (remove_padding (char_of p) (unpack_bits (payload_of t x))) of
                   Inl e \<Rightarrow> Inl e | Inr out \<Rightarrow> Inr (True, out))"
        unfolding header_of_def p_def buffer_def
        using decompress_container [OF full, of ?S _ "payload_of t x"] by simp
      then show ?thesis unfolding n rb' .
    qed
    from strip rb' dec show ?thesis by blast
  qed
  have s': "length (payload_of t x) < 2 ^ 61 \<longrightarrow>
              remove_padding (char_of p) (unpack_bits (payload_of t x))
                = (if p = 8 then unpack_bits (payload_of t x)
                   else take (length (unpack_bits (payload_of t x)) - p)
                          (unpack_bits (payload_of t x))) \<and>
              remove_padding (char_of p) (unpack_bits (payload_of t x)) = buffer \<and>
              (2 \<le> card (set x) \<longrightarrow>
                 decompress (header_of t x @ payload_of t x)
                   = (case decode_loop (shape t) (length x) (shape t) 0 [] buffer of
                        Inl e \<Rightarrow> Inl e | Inr out \<Rightarrow> Inr (True, out)))"
    using s by (rule impI)
  have all: "build_tree lib x = Some (Inr t) \<and>
           compress lib x = Some (Inr (header_of t x @ payload_of t x)) \<and>
           buffer = code_bits t x \<and> p = padding_of buffer \<and>
           last (header_of t x) = char_of p \<and> char_of p \<noteq> CHR 0x00 \<and>
           1 \<le> p \<and> p \<le> 8 \<and> (p = 8 \<longleftrightarrow> length buffer mod 8 = 0) \<and>
           add_padding buffer = buffer @ replicate (p mod 8) (CHR ''0'') \<and>
           length (add_padding buffer) mod 8 = 0 \<and>
           payload_of t x = pack_bytes (add_padding buffer) \<and>
           unpack_bits (payload_of t x) = add_padding buffer \<and>
           (length (payload_of t x) < 2 ^ 61 \<longrightarrow>
              remove_padding (char_of p) (unpack_bits (payload_of t x))
                = (if p = 8 then unpack_bits (payload_of t x)
                   else take (length (unpack_bits (payload_of t x)) - p)
                          (unpack_bits (payload_of t x))) \<and>
              remove_padding (char_of p) (unpack_bits (payload_of t x)) = buffer \<and>
              (2 \<le> card (set x) \<longrightarrow>
                 decompress (header_of t x @ payload_of t x)
                   = (case decode_loop (shape t) (length x) (shape t) 0 [] buffer of
                        Inl e \<Rightarrow> Inl e | Inr out \<Rightarrow> Inr (True, out))))"
    by (intro conjI) (fact t c buffer_def p_def l nz r e a m y u s')+
  show ?thesis
    apply (rule exI [of _ t])
    apply (rule exI [of _ buffer])
    apply (rule exI [of _ p])
    apply (rule all)
    done
qed

section \<open>The claims\<close>

text \<open>
  Claim C1. For every byte sequence \<open>x\<close>, decompressing the container that compress
  produced for \<open>x\<close> yields \<open>x\<close>, also when \<open>x\<close> is one repeated byte. The code does
  not do this for the one-byte input \<open>a\<close>: the container is accepted and an empty file
  is written. (\<open>single_symbol_decompress\<close> shows the same for every input made of one
  repeated byte, \<open>roundtrip_many\<close> that the round trip holds when two different bytes
  occur.)
\<close>

theorem roundtrip_fails_single_byte:
  "compress ref_lib ''a'' =
     Some (Inr (''HUF101a#'' @ [CHR 0x01, CHR 0x00, CHR 0x00, CHR 0x00, CHR 0x00, CHR 0x00,
                                 CHR 0x00, CHR 0x00, CHR 0x07, CHR 0x00])) \<and>
   decompress (''HUF101a#'' @ [CHR 0x01, CHR 0x00, CHR 0x00, CHR 0x00, CHR 0x00, CHR 0x00,
                                CHR 0x00, CHR 0x00, CHR 0x07, CHR 0x00]) = Inr (True, [])"
proof
  show "compress ref_lib ''a'' =
     Some (Inr (''HUF101a#'' @ [CHR 0x01, CHR 0x00, CHR 0x00, CHR 0x00, CHR 0x00, CHR 0x00,
                                 CHR 0x00, CHR 0x00, CHR 0x07, CHR 0x00]))"
    by (rule compress_a)
next
  show "decompress (''HUF101a#'' @ [CHR 0x01, CHR 0x00, CHR 0x00, CHR 0x00, CHR 0x00, CHR 0x00,
                                CHR 0x00, CHR 0x00, CHR 0x07, CHR 0x00]) = Inr (True, [])"
    by (simp add: decompress_def remove_padding_def schar_def unpack_bits_def)
qed

text \<open>
  Claim C2. For the empty input compress emits a minimal container recording size 0, and
  decompressing it yields an empty output. The code has no such case: with an empty
  frequency table the queue stays empty, neither the single-character case nor the loop
  runs, and line 284 takes \<^verbatim>\<open>pq.top()\<close> of the empty queue.
\<close>

theorem compress_empty_faults:
  assumes "conforming lib"
  shows "compress lib [] = Some (Inl EmptyQueue)"
proof -
  have "build_tree lib [] = Some (Inl EmptyQueue)"
    using assms by (rule build_tree_empty)
  then show ?thesis by (simp add: compress_def)
qed

theorem compress_empty_faults_witness:
  "conforming ref_lib \<and> compress ref_lib [] = Some (Inl EmptyQueue)"
  using compress_empty_faults [of ref_lib] conforming_ref_lib by simp

text \<open>
  Claim C3. Truncating the payload of a valid container by a non-zero number of bytes makes
  decompress fail with UnexpectedEndOfStream. The code never compares the number of decoded
  symbols with the declared one: the container of \<open>ab\<close> without its payload byte is
  accepted.
\<close>

theorem truncated_payload_accepted_counterexample:
  "compress ref_lib ''ab'' =
     Some (Inr (''HUF101a1b#'' @ [CHR 0x02, CHR 0x00, CHR 0x00, CHR 0x00, CHR 0x00, CHR 0x00,
                                   CHR 0x00, CHR 0x00, CHR 0x06, CHR 0x40])) \<and>
   decompress (butlast (''HUF101a1b#'' @ [CHR 0x02, CHR 0x00, CHR 0x00, CHR 0x00, CHR 0x00,
                                           CHR 0x00, CHR 0x00, CHR 0x00, CHR 0x06, CHR 0x40]))
     = Inr (True, [])"
  using compress_ab decompress_ab_truncated by simp

text \<open>
  Claim C3 as amended. For an input with at least two different bytes, whose container is
  the header followed by the payload (fewer than \<open>2 ^ 61\<close> payload bytes), removing
  \<open>k \<ge> 1\<close> bytes from the end of the payload makes decompress report success and write a
  proper prefix of the input.
\<close>

theorem truncated_payload_decodes_prefix:
  assumes "conforming lib" "2 \<le> card (set x)" "build_tree lib x = Some (Inr t)"
    and big: "length (payload_of t x) < 2 ^ 61"
    and k: "1 \<le> k" "k \<le> length (payload_of t x)"
  shows "compress lib x = Some (Inr (header_of t x @ payload_of t x)) \<and>
         (\<exists>ys zs. decompress (header_of t x @ take (length (payload_of t x) - k) (payload_of t x))
                     = Inr (True, ys) \<and> x = ys @ zs \<and> zs \<noteq> [])"
proof -
  from build_tree_many [OF assms(1,2)] assms(3) have
    t: "full t" "\<not> is_leaf t" "distinct (leaves t)" "set (leaves t) = set x" by auto
  let ?cm = "buildCodeMap t [] Map.empty"
  let ?buf = "code_bits t x"
  let ?S = "le_bytes 8 (length x mod 2 ^ 64)"
  let ?P = "char_of (padding_of ?buf)"
  let ?Y = "payload_of t x"
  have c: "compress lib x = Some (Inr (header_of t x @ ?Y))"
    using compress_build [OF assms(3)] by (simp add: write_container_split)
  have ok: "code_ok t ?cm x" using t(3,4,2) by (intro code_ok_build) auto
  have lx: "length x \<le> length ?buf"
    unfolding code_bits_def using ok t(2) by (rule length_encode_data_ge)
  from assms(2) have "x \<noteq> []" by auto
  with lx have ne: "?buf \<noteq> []" by auto
  let ?j = "length ?Y - k"
  from k have j: "?j < length ?Y" by linarith
  from truncated_bits [OF j big ne] obtain i where
    i: "i < length ?buf" "remove_padding ?P (unpack_bits (take ?j ?Y)) = take i ?buf" by blast
  have "length ?buf \<le> 8 * length ?Y" using length_code_bits [of t x] by simp
  with lx big have "length x < 2 ^ 64" by simp
  then have n: "from_le ?S = length x" by (simp add: from_le_le_bytes)
  from decode_prefix [of "shape t" ?cm x 0 "length x" i "[]"] ok t(2) i(1)
  obtain ys zs where
    d: "decode_loop (shape t) (length x) (shape t) 0 [] (take i ?buf) = Inr ys"
       "x = ys @ zs" "zs \<noteq> []"
    by (auto simp: code_ok_shape code_bits_def)
  have "decompress (header_of t x @ take ?j ?Y) =
          (case decode_loop (shape t) (from_le ?S) (shape t) 0 []
                  (remove_padding ?P (unpack_bits (take ?j ?Y)))
           of Inl e \<Rightarrow> Inl e | Inr out \<Rightarrow> Inr (True, out))"
    unfolding header_of_def using decompress_container [OF t(1), of ?S ?P "take ?j ?Y"]
    by simp
  also have "\<dots> = Inr (True, ys)"
    unfolding n i(2) d(1) by simp
  finally show ?thesis using c d(2,3) by blast
qed

theorem truncated_payload_decodes_prefix_witness:
  "conforming ref_lib \<and> 2 \<le> card (set ''ab'') \<and>
   build_tree ref_lib ''ab'' =
     Some (Inr (Node (CHR 0x00) 2 (Node (CHR ''a'') 1 Null Null) (Node (CHR ''b'') 1 Null Null))) \<and>
   length (payload_of (Node (CHR 0x00) 2 (Node (CHR ''a'') 1 Null Null)
                         (Node (CHR ''b'') 1 Null Null)) ''ab'') = 1 \<and>
   (\<exists>ys zs. decompress (header_of (Node (CHR 0x00) 2 (Node (CHR ''a'') 1 Null Null)
                                      (Node (CHR ''b'') 1 Null Null)) ''ab'' @ [])
               = Inr (True, ys) \<and> ''ab'' = ys @ zs \<and> zs \<noteq> [])"
proof -
  define t where "t = Node (CHR 0x00) 2 (Node (CHR ''a'') 1 Null Null) (Node (CHR ''b'') 1 Null Null)"
  have bt: "build_tree ref_lib ''ab'' = Some (Inr t)" unfolding t_def by (rule build_tree_ab)
  have "payload_of t ''ab'' = [CHR 0x40]" unfolding t_def by code_simp
  then have p: "length (payload_of t ''ab'') = 1" "take 0 (payload_of t ''ab'') = []" by simp_all
  have "length (payload_of t ''ab'') < 2 ^ 61" "(1::nat) \<le> 1" "1 \<le> length (payload_of t ''ab'')"
    using p(1) by simp_all
  from truncated_payload_decodes_prefix [OF conforming_ref_lib card_ab bt this]
  have "\<exists>ys zs. decompress (header_of t ''ab'' @ []) = Inr (True, ys) \<and> ''ab'' = ys @ zs \<and> zs \<noteq> []"
    unfolding p by simp
  with conforming_ref_lib card_ab bt p(1) show ?thesis unfolding t_def by blast
qed

text \<open>
  Claim C4. Tree deserialisation fails with MalformedTree whenever the stream ends before a
  complete tree has been read, or a discriminator byte is neither '1' nor '0'. The code
  reports nothing: for the byte \<open>x\<close> \<open>readTree\<close> returns a null node, and decompress
  accepts a container whose tree is that byte.
\<close>

theorem bad_discriminator_accepted_counterexample:
  "readTree ''x'' = Inr (Null, []) \<and>
   decompress (''HUF1x#'' @ [CHR 0x00, CHR 0x00, CHR 0x00, CHR 0x00, CHR 0x00, CHR 0x00,
                              CHR 0x00, CHR 0x00, CHR 0x08]) = Inr (True, [])"
  by (simp add: decompress_def remove_padding_def schar_def unpack_bits_def)

text \<open>
  Claim C4 as amended. For every stream whose next byte is neither '1' nor '0',
  \<open>readTree\<close> consumes that byte and returns the null node, and reports no failure;
  decompress goes on with the delimiter, the size and the padding byte, and accepts the
  container when no payload follows. (When the stream ends inside the tree the program
  reads a variable that was never set; nothing is stated about that case.)
\<close>

theorem readTree_unknown_discriminator:
  assumes "type \<noteq> CHR ''1''" "type \<noteq> CHR ''0''" "length S = 8"
  shows "readTree (type # s) = Inr (Null, s) \<and>
         decompress (''HUF1'' @ [type, d] @ S @ [P]) = Inr (True, [])"
proof
  show "readTree (type # s) = Inr (Null, s)" using assms(1,2) by simp
next
  from assms(3) obtain a b c e f g h i where S: "S = [a, b, c, e, f, g, h, i]"
    using length_8_conv by blast
  have "readTree (type # d # S @ [P]) = Inr (Null, d # S @ [P])" using assms(1,2) by simp
  then show "decompress (''HUF1'' @ [type, d] @ S @ [P]) = Inr (True, [])"
    unfolding S by (simp add: decompress_def remove_padding_def unpack_bits_def)
qed

theorem readTree_unknown_discriminator_witness:
  "CHR ''x'' \<noteq> CHR ''1'' \<and> CHR ''x'' \<noteq> CHR ''0'' \<and> length (replicate 8 (CHR 0x00)) = 8 \<and>
   readTree (CHR ''x'' # ''#rest'') = Inr (Null, ''#rest'') \<and>
   decompress (''HUF1'' @ [CHR ''x'', CHR ''#''] @ replicate 8 (CHR 0x00) @ [CHR 0x08])
     = Inr (True, [])"
proof -
  have h: "CHR ''x'' \<noteq> CHR ''1''" "CHR ''x'' \<noteq> CHR ''0''" "length (replicate 8 (CHR 0x00)) = 8"
    by simp_all
  from readTree_unknown_discriminator [OF h, of "''#rest''" "CHR ''#''" "CHR 0x08"] h
  show ?thesis by blast
qed




text \<open>
  Claim C6. For a non-empty input with exactly one distinct symbol the tree is an inner
  root with a single leaf as its left child and the code of the symbol is \<open>0\<close>; and for
  every non-empty input the code table has no empty code, and every byte of the input has
  a code.
\<close>

theorem single_symbol_tree_and_codes:
  assumes "conforming lib" "x \<noteq> []"
  shows "\<exists>root. build_tree lib x = Some (Inr root) \<and>
           (\<forall>c. buildCodeMap root [] Map.empty c \<noteq> Some []) \<and>
           (\<forall>c \<in> set x. lookup (buildCodeMap root [] Map.empty) c \<noteq> []) \<and>
           (\<forall>ch. set x = {ch} \<longrightarrow>
              root = Node (CHR 0x00) (of_nat (length x))
                       (Node ch (of_nat (length x)) Null Null) Null \<and>
              buildCodeMap root [] Map.empty ch = Some ''0'')"
proof -
  from build_tree_nonempty [OF assms] obtain t where
    t: "build_tree lib x = Some (Inr t)" "\<not> is_leaf t"
       "code_ok t (buildCodeMap t [] Map.empty) x"
       "card (set x) < 2 \<longrightarrow> t = single_tree (hd x) (of_nat (length x))"
    by blast
  have a: "\<forall>c. buildCodeMap t [] Map.empty c \<noteq> Some []"
    by (rule buildCodeMap_nonempty) simp
  have b: "\<forall>c \<in> set x. lookup (buildCodeMap t [] Map.empty) c \<noteq> []"
    using t(3,2) by (rule lookup_code_nonempty)
  have c: "t = Node (CHR 0x00) (of_nat (length x)) (Node ch (of_nat (length x)) Null Null) Null \<and>
           buildCodeMap t [] Map.empty ch = Some ''0''" if s: "set x = {ch}" for ch
  proof -
    from s have "card (set x) < 2" by simp
    moreover from s assms(2) have "hd x = ch" by (cases x) auto
    ultimately have "t = single_tree ch (of_nat (length x))" using t(4) by simp
    then show ?thesis by (simp add: single_tree_def)
  qed
  from t(1) a b c show ?thesis by blast
qed

theorem single_symbol_tree_and_codes_witness:
  "conforming ref_lib \<and> ''aaa'' \<noteq> [] \<and> CHR ''a'' \<in> set ''aaa'' \<and> set ''aaa'' = {CHR ''a''} \<and>
   (\<exists>root. build_tree ref_lib ''aaa'' = Some (Inr root) \<and>
      lookup (buildCodeMap root [] Map.empty) (CHR ''a'') \<noteq> [] \<and>
      root = Node (CHR 0x00) (of_nat (length ''aaa'')) (Node (CHR ''a'') (of_nat (length ''aaa'')) Null Null) Null \<and>
      buildCodeMap root [] Map.empty (CHR ''a'') = Some ''0'')"
proof -
  have h: "''aaa'' \<noteq> []" "CHR ''a'' \<in> set ''aaa''" "set ''aaa'' = {CHR ''a''}" by simp_all
  from single_symbol_tree_and_codes [OF conforming_ref_lib h(1)] h(2,3) conforming_ref_lib h(1)
  show ?thesis by blast
qed

text \<open>
  Claim C7. For every tree that compress can build, reading back what \<open>writeTree\<close> wrote
  gives a tree of the same shape with the same leaf symbols, and \<open>readTree\<close> consumes
  exactly the bytes written. For the tree of the one-byte input \<open>a\<close> the writer emits
  three bytes, skipping the absent right child, and the reader, which always reads two
  children, takes a fourth byte from what follows (the delimiter), or reads past the end
  when nothing follows. (\<open>readTree_writeTree\<close> is the claim for trees without one-child
  nodes.)
\<close>

theorem single_tree_read_takes_next_byte:
  "build_tree ref_lib ''a'' =
     Some (Inr (Node (CHR 0x00) 1 (Node (CHR ''a'') 1 Null Null) Null)) \<and>
   writeTree (Node (CHR 0x00) 1 (Node (CHR ''a'') 1 Null Null) Null) = ''01a'' \<and>
   readTree (''01a'' @ ''#'' @ rest)
     = Inr (Node (CHR 0x00) 0 (Node (CHR ''a'') 0 Null Null) Null, rest) \<and>
   readTree ''01a'' = Inl UninitRead"
  using build_tree_a by simp

text \<open>
  Claim C8. For every non-empty input, compress pads the concatenated code bits with zero
  bits to the next multiple of 8 and records a pad value that is 1 to 7 when bits were
  added and 8 when the bit string was already aligned, never 0; decompress strips exactly
  the recorded number of trailing bits when the value is not 8 and none when it is 8.
  The first half holds (\<open>padding_steps\<close>), and so does the second for inputs with two
  different bytes. It fails for every input made of \<open>n\<close> copies of one byte \<open>ch\<close>. There
  \<open>buffer\<close> is the bit string before padding, \<open>p\<close> the recorded value, between 1 and 8
  and the last byte of the header, and the payload unpacks to the padded buffer. But
  \<open>readTree\<close> returns the stream \<open>s1\<close> that starts at the size field: it has taken the
  delimiter as the missing right child. So decompress drops the first byte of the size
  field as the delimiter and reads as \<open>padding\<close> not the recorded byte but the byte after
  it, the first byte of the payload, which is 0; it unpacks the payload without its
  first byte, strips by the value 0, and walks a bit string shorter than \<open>buffer\<close>:
  fewer than \<open>n\<close> bytes are decoded.
\<close>

theorem single_symbol_recorded_padding_not_stripped:
  assumes "conforming lib" "0 < n"
  shows "\<exists>root buffer p s1 rest.
           build_tree lib (replicate n ch) = Some (Inr root) \<and>
           compress lib (replicate n ch)
             = Some (Inr (header_of root (replicate n ch) @ payload_of root (replicate n ch))) \<and>
           buffer = code_bits root (replicate n ch) \<and> p = padding_of buffer \<and>
           last (header_of root (replicate n ch)) = char_of p \<and> 1 \<le> p \<and> p \<le> 8 \<and>
           unpack_bits (payload_of root (replicate n ch)) = add_padding buffer \<and>
           readTree (drop 4 (header_of root (replicate n ch) @ payload_of root (replicate n ch)))
             = Inr (Node (CHR 0x00) 0 (Node ch 0 Null Null) Null, s1) \<and>
           s1 = le_bytes 8 (n mod 2 ^ 64) @ char_of p # payload_of root (replicate n ch) \<and>
           drop 8 (drop 1 s1) = CHR 0x00 # rest \<and>
           payload_of root (replicate n ch) = CHR 0x00 # rest \<and>
           char_of p \<noteq> CHR 0x00 \<and>
           decompress (header_of root (replicate n ch) @ payload_of root (replicate n ch))
             = (case decode_loop (Node (CHR 0x00) 0 (Node ch 0 Null Null) Null)
                       (from_le (take 8 (drop 1 s1)))
                       (Node (CHR 0x00) 0 (Node ch 0 Null Null) Null) 0 []
                       (remove_padding (CHR 0x00) (unpack_bits rest)) of
                  Inl e \<Rightarrow> Inl e | Inr out \<Rightarrow> Inr (True, out)) \<and>
           length (remove_padding (CHR 0x00) (unpack_bits rest)) < length buffer \<and>
           (\<exists>j. j < n \<and>
                decompress (header_of root (replicate n ch) @ payload_of root (replicate n ch))
                  = Inr (True, replicate j ch))"
proof -
  let ?x = "replicate n ch"
  let ?t = "single_tree ch (of_nat n)"
  let ?m = "(n + 7) div 8"
  let ?R = "Node (CHR 0x00) 0 (Node ch 0 Null Null) Null"
  define buffer where "buffer = code_bits ?t ?x"
  define p where "p = padding_of buffer"
  define S where "S = le_bytes 8 (n mod 2 ^ 64)"
  define rest where "rest = replicate (?m - 1) (CHR 0x00)"
  define s1 where "s1 = S @ char_of p # payload_of ?t ?x"
  have lS: "length S = 8" unfolding S_def by (rule length_le_bytes)
  have t: "build_tree lib ?x = Some (Inr ?t)" using assms by (rule build_tree_single)
  have c: "compress lib ?x = Some (Inr (header_of ?t ?x @ payload_of ?t ?x))"
    using compress_build [OF t] by (simp add: write_container_split)
  have b: "buffer = replicate n (CHR ''0'')" unfolding buffer_def by (rule code_bits_single)
  have r: "1 \<le> p" "p \<le> 8" unfolding p_def using padding_of_range [of buffer] by simp_all
  have l: "last (header_of ?t ?x) = char_of p"
    by (simp add: header_of_def p_def buffer_def)
  have "(of_char (char_of p) :: int) = int p" using r by (simp add: of_char_char_of_small)
  then have "(of_char (char_of p) :: int) \<noteq> of_char (CHR 0x00)" using r by simp
  then have nz: "char_of p \<noteq> CHR 0x00" by metis
  have u: "unpack_bits (payload_of ?t ?x) = add_padding buffer"
    unfolding buffer_def by (rule unpack_payload)
  from assms(2) obtain m' where m: "?m = Suc m'" by (cases ?m) auto
  have y: "payload_of ?t ?x = CHR 0x00 # rest"
    unfolding rest_def payload_single m by simp
  have w: "header_of ?t ?x @ payload_of ?t ?x
             = ''HUF1'' @ [CHR ''0'', CHR ''1'', ch] @ ''#'' @ S @ char_of p # CHR 0x00 # rest"
    unfolding y by (simp add: header_of_def writeTree_single S_def p_def buffer_def)
  have s: "s1 = S @ char_of p # CHR 0x00 # rest" unfolding s1_def y ..
  note st1 = decompress_single_steps(1) [OF lS, of ch "char_of p" "CHR 0x00" rest]
  note st2 = decompress_single_steps(2) [OF lS, of "char_of p" "CHR 0x00" rest]
  note st3 = decompress_single_steps(3) [OF lS, of ch "char_of p" "CHR 0x00" rest]
  have rd: "readTree (drop 4 (header_of ?t ?x @ payload_of ?t ?x)) = Inr (?R, s1)"
    unfolding w s by (rule st1)
  have d8: "drop 8 (drop 1 s1) = CHR 0x00 # rest" unfolding s by (rule st2)
  have dc: "decompress (header_of ?t ?x @ payload_of ?t ?x)
             = (case decode_loop ?R (from_le (take 8 (drop 1 s1))) ?R 0 []
                       (remove_padding (CHR 0x00) (unpack_bits rest)) of
                  Inl e \<Rightarrow> Inl e | Inr out \<Rightarrow> Inr (True, out))"
    unfolding w s by (rule st3)
  have "length (remove_padding (CHR 0x00) (unpack_bits rest)) \<le> length (unpack_bits rest)"
    by (rule length_remove_padding_zero)
  also have "\<dots> = 8 * (?m - 1)" unfolding rest_def unpack_zeros by simp
  also have "\<dots> < n" using assms(2) by (simp add: algebra_simps)
  finally have sh: "length (remove_padding (CHR 0x00) (unpack_bits rest)) < length buffer"
    unfolding b by simp
  from single_symbol_decompress [OF assms, of ch] obtain c' j where
    j: "compress lib ?x = Some (Inr c')" "decompress c' = Inr (True, replicate j ch)" "j < n"
    by blast
  from j(1) c have "c' = header_of ?t ?x @ payload_of ?t ?x" by simp
  with j have ex: "\<exists>j. j < n \<and>
                decompress (header_of ?t ?x @ payload_of ?t ?x) = Inr (True, replicate j ch)"
    by blast
  have s1': "s1 = le_bytes 8 (n mod 2 ^ 64) @ char_of p # payload_of ?t ?x"
    unfolding s1_def S_def ..
  have all: "build_tree lib ?x = Some (Inr ?t) \<and>
           compress lib ?x = Some (Inr (header_of ?t ?x @ payload_of ?t ?x)) \<and>
           buffer = code_bits ?t ?x \<and> p = padding_of buffer \<and>
           last (header_of ?t ?x) = char_of p \<and> 1 \<le> p \<and> p \<le> 8 \<and>
           unpack_bits (payload_of ?t ?x) = add_padding buffer \<and>
           readTree (drop 4 (header_of ?t ?x @ payload_of ?t ?x)) = Inr (?R, s1) \<and>
           s1 = le_bytes 8 (n mod 2 ^ 64) @ char_of p # payload_of ?t ?x \<and>
           drop 8 (drop 1 s1) = CHR 0x00 # rest \<and>
           payload_of ?t ?x = CHR 0x00 # rest \<and>
           char_of p \<noteq> CHR 0x00 \<and>
           decompress (header_of ?t ?x @ payload_of ?t ?x)
             = (case decode_loop ?R (from_le (take 8 (drop 1 s1))) ?R 0 []
                       (remove_padding (CHR 0x00) (unpack_bits rest)) of
                  Inl e \<Rightarrow> Inl e | Inr out \<Rightarrow> Inr (True, out)) \<and>
           length (remove_padding (CHR 0x00) (unpack_bits rest)) < length buffer \<and>
           (\<exists>j. j < n \<and>
                decompress (header_of ?t ?x @ payload_of ?t ?x) = Inr (True, replicate j ch))"
    by (intro conjI) (fact t c buffer_def p_def l r u rd s1' d8 y nz dc sh ex)+
  show ?thesis
    apply (rule exI [of _ ?t])
    apply (rule exI [of _ buffer])
    apply (rule exI [of _ p])
    apply (rule exI [of _ s1])
    apply (rule exI [of _ rest])
    apply (rule all)
    done
qed

theorem single_symbol_recorded_padding_not_stripped_witness:
  "conforming ref_lib \<and> (0::nat) < 9 \<and>
   build_tree ref_lib (replicate 9 (CHR ''a'')) = Some (Inr (single_tree (CHR ''a'') 9)) \<and>
   padding_of (code_bits (single_tree (CHR ''a'') 9) (replicate 9 (CHR ''a''))) = 7 \<and>
   payload_of (single_tree (CHR ''a'') 9) (replicate 9 (CHR ''a'')) = [CHR 0x00, CHR 0x00] \<and>
   decompress (header_of (single_tree (CHR ''a'') 9) (replicate 9 (CHR ''a''))
                 @ payload_of (single_tree (CHR ''a'') 9) (replicate 9 (CHR ''a'')))
     = Inr (True, replicate 8 (CHR ''a''))"
proof -
  define x where "x = replicate 9 (CHR ''a'')"
  define t where "t = single_tree (CHR ''a'') 9"
  let ?R = "Node (CHR 0x00) 0 (Node (CHR ''a'') 0 Null Null) Null"
  have pos: "(0::nat) < 9" by simp
  have bt: "build_tree ref_lib x = Some (Inr t)"
    using build_tree_single [OF conforming_ref_lib pos, of "CHR ''a''"] by (simp add: x_def t_def)
  have cb: "code_bits t x = replicate 9 (CHR ''0'')"
    unfolding x_def t_def by (rule code_bits_single)
  have pd: "padding_of (code_bits t x) = 7" unfolding cb by (simp add: padding_of_def)
  have py: "payload_of t x = [CHR 0x00, CHR 0x00]"
    unfolding x_def t_def payload_single by (simp add: numeral_2_eq_2)
  from single_symbol_recorded_padding_not_stripped [OF conforming_ref_lib pos, of "CHR ''a''"]
  obtain root p s1 rest where
    f: "build_tree ref_lib x = Some (Inr root)"
       "p = padding_of (code_bits root x)"
       "s1 = le_bytes 8 (9 mod 2 ^ 64) @ char_of p # payload_of root x"
       "payload_of root x = CHR 0x00 # rest"
       "decompress (header_of root x @ payload_of root x)
          = (case decode_loop ?R (from_le (take 8 (drop 1 s1))) ?R 0 []
                    (remove_padding (CHR 0x00) (unpack_bits rest)) of
               Inl e \<Rightarrow> Inl e | Inr out \<Rightarrow> Inr (True, out))"
    unfolding x_def [symmetric] by blast
  from f(1) bt have rt: "root = t" by simp
  from f(2) pd have p7: "p = 7" unfolding rt by simp
  from f(4) py have rest: "rest = replicate 1 (CHR 0x00)" unfolding rt by simp
  have le: "le_bytes 8 (9 mod 2 ^ 64)
              = [CHR 0x09, CHR 0x00, CHR 0x00, CHR 0x00, CHR 0x00, CHR 0x00, CHR 0x00, CHR 0x00]"
    by (simp add: le_bytes_8 char_of_nat_simps)
  have "take 8 (drop 1 s1)
          = [CHR 0x00, CHR 0x00, CHR 0x00, CHR 0x00, CHR 0x00, CHR 0x00, CHR 0x00, CHR 0x07]"
    unfolding f(3) le p7 by (simp add: char_of_nat_simps)
  then have N: "8 \<le> from_le (take 8 (drop 1 s1))" by simp
  have bits: "remove_padding (CHR 0x00) (unpack_bits rest) = replicate 8 (CHR ''0'')"
    unfolding rest unpack_zeros remove_padding_zero by simp
  have "decompress (header_of t x @ payload_of t x)
          = Inr (True, replicate (min 8 (from_le (take 8 (drop 1 s1)))) (CHR ''a''))"
    using f(5) unfolding rt bits decode_zeros by simp
  with N have "decompress (header_of t x @ payload_of t x) = Inr (True, replicate 8 (CHR ''a''))"
    by (simp add: min_def)
  with conforming_ref_lib pos bt pd py show ?thesis unfolding x_def t_def by blast
qed

text \<open>
  Claim C9. For the input \<open>aaaabbbcc\<close> the code of \<open>a\<close> is no longer than those of \<open>b\<close>
  and \<open>c\<close>, the number of payload bits (the payload without its padding) is the sum over
  the symbols of frequency times code length, and decompressing the container gives
  \<open>aaaabbbcc\<close> back. No two weights are equal at any step, so the tree is the same for
  every library behaviour.
\<close>

theorem example_aaaabbbcc:
  assumes "conforming lib"
  shows "\<exists>root cm c.
           build_tree lib ''aaaabbbcc'' = Some (Inr root) \<and>
           cm = buildCodeMap root [] Map.empty \<and>
           compress lib ''aaaabbbcc'' = Some (Inr c) \<and>
           c = header_of root ''aaaabbbcc'' @ payload_of root ''aaaabbbcc'' \<and>
           count_freq ''aaaabbbcc'' = [(CHR ''a'', 4), (CHR ''b'', 3), (CHR ''c'', 2)] \<and>
           lookup cm (CHR ''a'') = ''0'' \<and> lookup cm (CHR ''b'') = ''11'' \<and>
           lookup cm (CHR ''c'') = ''10'' \<and>
           length (lookup cm (CHR ''a'')) \<le> length (lookup cm (CHR ''b'')) \<and>
           length (lookup cm (CHR ''a'')) \<le> length (lookup cm (CHR ''c'')) \<and>
           length (code_bits root ''aaaabbbcc'')
             = sum_list (map (\<lambda>(s, f). unat f * length (lookup cm s)) (count_freq ''aaaabbbcc'')) \<and>
           8 * length (payload_of root ''aaaabbbcc'') - padding_of (code_bits root ''aaaabbbcc'')
             = length (code_bits root ''aaaabbbcc'') \<and>
           decompress c = Inr (True, ''aaaabbbcc'')"
proof -
  define t where "t = Node (CHR 0x00) 9 (Node (CHR ''a'') 4 Null Null)
                        (Node (CHR 0x00) 5 (Node (CHR ''c'') 2 Null Null)
                                           (Node (CHR ''b'') 3 Null Null))"
  define cm where "cm = buildCodeMap t [] Map.empty"
  have bt: "build_tree lib ''aaaabbbcc'' = Some (Inr t)"
    unfolding t_def using assms by (rule build_tree_example)
  have c: "compress lib ''aaaabbbcc''
             = Some (Inr (header_of t ''aaaabbbcc'' @ payload_of t ''aaaabbbcc''))"
    using compress_build [OF bt] by (simp add: write_container_split)
  have la: "lookup cm (CHR ''a'') = ''0''" and lb: "lookup cm (CHR ''b'') = ''11''"
    and lc: "lookup cm (CHR ''c'') = ''10''"
    unfolding cm_def t_def by (simp_all add: lookup_def)
  have cb: "code_bits t ''aaaabbbcc'' = ''00001111111010''" unfolding t_def by code_simp
  have pd: "padding_of ''00001111111010'' = 2" by code_simp
  have py: "payload_of t ''aaaabbbcc'' = [CHR 0x0F, CHR 0xE8]" unfolding t_def by code_simp
  have wt: "writeTree t = ''01a01c1b''" unfolding t_def by simp
  have sz: "le_bytes 8 (length ''aaaabbbcc'' mod 2 ^ 64)
              = [CHR 0x09, CHR 0x00, CHR 0x00, CHR 0x00, CHR 0x00, CHR 0x00, CHR 0x00, CHR 0x00]"
    by (simp add: le_bytes_8 char_of_nat_simps)
  have hd: "header_of t ''aaaabbbcc''
              = ''HUF101a01c1b#'' @ [CHR 0x09, CHR 0x00, CHR 0x00, CHR 0x00, CHR 0x00, CHR 0x00,
                                     CHR 0x00, CHR 0x00, CHR 0x02]"
    unfolding header_of_def wt sz cb pd by (simp add: char_of_nat_simps)
  have sum: "length (code_bits t ''aaaabbbcc'')
               = sum_list (map (\<lambda>(s, f). unat f * length (lookup cm s)) (count_freq ''aaaabbbcc''))"
    unfolding cb count_freq_example by (simp add: la lb lc)
  have bits: "8 * length (payload_of t ''aaaabbbcc'') - padding_of (code_bits t ''aaaabbbcc'')
                = length (code_bits t ''aaaabbbcc'')"
    unfolding py cb pd by simp
  have d: "decompress (header_of t ''aaaabbbcc'' @ payload_of t ''aaaabbbcc'')
             = Inr (True, ''aaaabbbcc'')"
    unfolding hd py
    by (simp add: decompress_def remove_padding_def schar_def unpack_bits_def bit_char_def)
  have le: "length (lookup cm (CHR ''a'')) \<le> length (lookup cm (CHR ''b''))"
    "length (lookup cm (CHR ''a'')) \<le> length (lookup cm (CHR ''c''))"
    unfolding la lb lc by simp_all
  define c' where "c' = header_of t ''aaaabbbcc'' @ payload_of t ''aaaabbbcc''"
  have c2: "compress lib ''aaaabbbcc'' = Some (Inr c')" unfolding c'_def by (rule c)
  have d2: "decompress c' = Inr (True, ''aaaabbbcc'')" unfolding c'_def by (rule d)
  have all: "build_tree lib ''aaaabbbcc'' = Some (Inr t) \<and>
           cm = buildCodeMap t [] Map.empty \<and>
           compress lib ''aaaabbbcc'' = Some (Inr c') \<and>
           c' = header_of t ''aaaabbbcc'' @ payload_of t ''aaaabbbcc'' \<and>
           count_freq ''aaaabbbcc'' = [(CHR ''a'', 4), (CHR ''b'', 3), (CHR ''c'', 2)] \<and>
           lookup cm (CHR ''a'') = ''0'' \<and> lookup cm (CHR ''b'') = ''11'' \<and>
           lookup cm (CHR ''c'') = ''10'' \<and>
           length (lookup cm (CHR ''a'')) \<le> length (lookup cm (CHR ''b'')) \<and>
           length (lookup cm (CHR ''a'')) \<le> length (lookup cm (CHR ''c'')) \<and>
           length (code_bits t ''aaaabbbcc'')
             = sum_list (map (\<lambda>(s, f). unat f * length (lookup cm s)) (count_freq ''aaaabbbcc'')) \<and>
           8 * length (payload_of t ''aaaabbbcc'') - padding_of (code_bits t ''aaaabbbcc'')
             = length (code_bits t ''aaaabbbcc'') \<and>
           decompress c' = Inr (True, ''aaaabbbcc'')"
    by (intro conjI) (fact bt cm_def c2 d2 c'_def count_freq_example la lb lc le sum bits)+
  show ?thesis
    apply (rule exI [of _ t])
    apply (rule exI [of _ cm])
    apply (rule exI [of _ c'])
    apply (rule all)
    done
qed

theorem example_aaaabbbcc_witness:
  "conforming ref_lib \<and>
   (\<exists>root c. build_tree ref_lib ''aaaabbbcc'' = Some (Inr root) \<and>
      compress ref_lib ''aaaabbbcc'' = Some (Inr c) \<and>
      lookup (buildCodeMap root [] Map.empty) (CHR ''a'') = ''0'' \<and>
      decompress c = Inr (True, ''aaaabbbcc''))"
proof -
  from example_aaaabbbcc [OF conforming_ref_lib] conforming_ref_lib
  show ?thesis by blast
qed

text \<open>
  Claim C10. The decoding walk follows child pointers without checking them; for every
  container that compress produced from a non-empty input, each bit it consumes leads to
  an existing child, so no null pointer is dereferenced and decompress returns normally.
  With two or more symbols the tree has no one-child node; with one symbol every bit
  that is decoded is 0 and the walk only ever goes left.
\<close>

theorem decode_walk_meets_no_missing_child:
  assumes "conforming lib" "x \<noteq> []"
  shows "\<exists>c out. compress lib x = Some (Inr c) \<and> decompress c = Inr (True, out)"
proof (cases "2 \<le> card (set x)")
  case True
  from build_tree_many [OF assms(1) True] obtain t where
    t: "build_tree lib x = Some (Inr t)" "full t" "\<not> is_leaf t" by blast
  let ?S = "le_bytes 8 (length x mod 2 ^ 64)"
  let ?P = "char_of (padding_of (code_bits t x))"
  have c: "compress lib x = Some (Inr (header_of t x @ payload_of t x))"
    using compress_build [OF t(1)] by (simp add: write_container_split)
  have ft: "full (shape t)" "\<not> is_leaf (shape t)" using t(2,3) by simp_all
  from decode_full [OF ft ft] obtain out where
    "decode_loop (shape t) (from_le ?S) (shape t) 0 []
       (remove_padding ?P (unpack_bits (payload_of t x))) = Inr out" by blast
  moreover have "decompress (header_of t x @ payload_of t x) =
            (case decode_loop (shape t) (from_le ?S) (shape t) 0 []
                    (remove_padding ?P (unpack_bits (payload_of t x)))
             of Inl e \<Rightarrow> Inl e | Inr out \<Rightarrow> Inr (True, out))"
    unfolding header_of_def using decompress_container [OF t(2), of ?S ?P "payload_of t x"]
    by simp
  ultimately have "decompress (header_of t x @ payload_of t x) = Inr (True, out)" by simp
  with c show ?thesis by blast
next
  case False
  then have "card (set x) < 2" by simp
  with assms(2) have x: "x = replicate (length x) (hd x)" by (rule one_symbol)
  from assms(2) have "0 < length x" by simp
  from single_symbol_decompress [OF assms(1) this, of "hd x"] x show ?thesis by metis
qed

theorem decode_walk_meets_no_missing_child_witness:
  "conforming ref_lib \<and> ''a'' \<noteq> [] \<and>
   (\<exists>c out. compress ref_lib ''a'' = Some (Inr c) \<and> decompress c = Inr (True, out))"
proof -
  have ne: "''a'' \<noteq> []" by simp
  from decode_walk_meets_no_missing_child [OF conforming_ref_lib ne] conforming_ref_lib ne
  show ?thesis by blast
qed

end
